theory Spec2Isabelle
  imports Main "HOL-Library.AList" "HOL-Library.Multiset"
begin

section \<open>Data model\<close>

text \<open>
  The crawl controller and sampling engine of \<^verbatim>\<open>main.py\<close>. A listing entry
  (\<^verbatim>\<open>li.work\<close>) is kept by the three things the controller reads from it:
  \<^item> \<open>work_id\<close>: \<^verbatim>\<open>work.get('id').split('_')[-1] if work.get('id') else None\<close>;
  \<^item> \<open>title\<close>: the text of \<^verbatim>\<open>work.select_one("h4 a")\<close>, \<open>None\<close> when the element is missing;
  \<^item> \<open>kudos\<close>: \<^verbatim>\<open>int(kudos_text.replace(',', ''))\<close>, the popularity score.
\<close>

record work =
  work_id :: "string option"
  title :: "string option"
  kudos :: int

text \<open>Exceptions that the controller does not catch, and the ways a run ends early.\<close>

datatype py_error = ValueError | KeyError | TypeError

text \<open>
  \<open>RateLimited page\<close> and \<open>RetriesExhausted page\<close> are the two \<^verbatim>\<open>exit(0)\<close> calls
  (in \<^verbatim>\<open>handle_rate_limit\<close> and in the retry loop of \<^verbatim>\<open>scrape_works\<close>);
  \<open>Uncaught e\<close> is an exception that reaches the top of \<^verbatim>\<open>main\<close>, which catches
  \<^verbatim>\<open>KeyboardInterrupt\<close> only.
\<close>

datatype stop = RateLimited int | RetriesExhausted int | Uncaught py_error

datatype 'a outcome = Ok 'a | Stop stop

text \<open>
  Where the controller is in its work on a page: fetching the listing, sampling it, or
  scraping the sampled works (after \<^verbatim>\<open>last_visited_page.txt\<close> was written).
\<close>

datatype phase = Fetching | Sampling | Emitting

text \<open>
  How the page loop ends: it returns (\<open>page\<close>, \<open>work_count\<close> and \<open>should_break\<close> at the
  return), the process stops (the page, the phase and the reason), or the fuel of the model
  runs out at the head of the loop (\<open>page\<close> and \<open>work_count\<close> there).
\<close>

datatype run = Returned int nat bool | Halted int phase stop | Unfinished int nat

subsection \<open>The random source\<close>

text \<open>
  The process-wide random source is a list of raw draws, consumed from the front; a draw
  from an exhausted list is 0. \<open>randbelow n\<close> is the library's primitive behind
  \<^verbatim>\<open>random.randint\<close> and \<^verbatim>\<open>random.sample\<close>: a number in \<open>[0, n)\<close>.
\<close>

type_synonym rng = "nat list"

definition randbelow :: "nat \<Rightarrow> rng \<Rightarrow> nat \<times> rng" where
  "randbelow n g = (case g of [] \<Rightarrow> (0, []) | r # g' \<Rightarrow> (r mod n, g'))"

text \<open>\<^verbatim>\<open>random.randint(a, b)\<close>: \<^verbatim>\<open>ValueError\<close> on an empty range, else \<open>a + randbelow (b - a + 1)\<close>.\<close>

definition random_randint :: "int \<Rightarrow> int \<Rightarrow> rng \<Rightarrow> (py_error + int) \<times> rng" where
  "random_randint a b g =
     (if b < a then (Inl ValueError, g)
      else (case randbelow (nat (b - a + 1)) g of (r, g') \<Rightarrow> (Inr (a + int r), g')))"

text \<open>
  \<^verbatim>\<open>random.sample(population, k)\<close>: \<^verbatim>\<open>ValueError\<close> unless \<open>0 \<le> k \<le> len(population)\<close>;
  otherwise \<open>k\<close> selections from a pool, each selected slot being refilled with the pool's
  last live element (the library's pool algorithm), so that no position is selected twice.
\<close>

fun sample_pool :: "nat \<Rightarrow> 'a list \<Rightarrow> rng \<Rightarrow> 'a list \<times> rng" where
  "sample_pool 0 pool g = ([], g)"
| "sample_pool (Suc k) pool g =
     (case randbelow (length pool) g of
        (j, g') \<Rightarrow>
          (case sample_pool k (butlast (pool[j := last pool])) g' of
             (rest, g'') \<Rightarrow> ((pool ! j) # rest, g'')))"

definition random_sample :: "'a list \<Rightarrow> int \<Rightarrow> rng \<Rightarrow> (py_error + 'a list) \<times> rng" where
  "random_sample population k g =
     (if 0 \<le> k \<and> k \<le> int (length population)
      then (case sample_pool (nat k) population g of (r, g') \<Rightarrow> (Inr r, g'))
      else (Inl ValueError, g))"

subsection \<open>Slices\<close>

text \<open>\<^verbatim>\<open>xs[start::n]\<close> for \<open>start \<ge> 0\<close> and \<open>n \<ge> 1\<close>: every n-th element from \<open>start\<close> on.\<close>

fun stride :: "nat \<Rightarrow> 'a list \<Rightarrow> 'a list" where
  "stride n [] = []"
| "stride n (x # xs) = x # stride n (drop (n - 1) xs)"

definition slice_from :: "nat \<Rightarrow> nat \<Rightarrow> 'a list \<Rightarrow> 'a list" where
  "slice_from start n xs = stride n (drop start xs)"

text \<open>The same slice in the words of the specification: the items at indices \<open>r, r+n, r+2n, \<dots>\<close>.\<close>

definition every_nth_from :: "nat \<Rightarrow> nat \<Rightarrow> 'a list \<Rightarrow> 'a list" where
  "every_nth_from r n xs =
     map (\<lambda>i. xs ! i) (filter (\<lambda>i. r \<le> i \<and> (i - r) mod n = 0) [0..<length xs])"

subsection \<open>Dictionaries and bins\<close>

text \<open>
  A Python \<^verbatim>\<open>dict\<close> keeps insertion order and a re-assigned key keeps its place:
  an association list under \<open>AList.update\<close>.
\<close>

type_synonym ('k, 'v) dict = "('k \<times> 'v) list"

text \<open>\<^verbatim>\<open>{k: v0 for k in keys}\<close>\<close>

definition dict_init :: "'k list \<Rightarrow> 'v \<Rightarrow> ('k, 'v) dict" where
  "dict_init ks v0 = fold (\<lambda>k d. AList.update k v0 d) ks []"

text \<open>\<^verbatim>\<open>zip(kudos_bins[:-1], kudos_bins[1:])\<close>\<close>

definition bin_pairs :: "int list \<Rightarrow> (int \<times> int) list" where
  "bin_pairs kudos_bins = zip (butlast kudos_bins) (tl kudos_bins)"

definition in_bin :: "int \<Rightarrow> int \<times> int \<Rightarrow> bool" where
  "in_bin k b = (fst b \<le> k \<and> k < snd b)"

text \<open>The inner \<^verbatim>\<open>for \<dots> if bin_start <= kudos < bin_end: \<dots> break\<close>: the first bin that holds the score.\<close>

definition find_bin :: "int list \<Rightarrow> int \<Rightarrow> (int \<times> int) option" where
  "find_bin kudos_bins k = find (in_bin k) (bin_pairs kudos_bins)"


section \<open>The state of a run\<close>

text \<open>
  A fetched document, by what the controller reads from it:
  \<^item> \<open>retry_later\<close>: \<^verbatim>\<open>"Retry later" in soup.text\<close>, the rate-limit marker;
  \<^item> \<open>works\<close>: \<^verbatim>\<open>soup.select("li.work")\<close>;
  \<^item> \<open>published\<close>: \<^verbatim>\<open>get_element_text(work_soup.select_one("dd.published"))\<close>.
  \<open>NetworkError\<close> is \<^verbatim>\<open>requests.get\<close> raising a connection error or a timeout.
\<close>

record html =
  retry_later :: bool
  works :: "work list"
  published :: string

datatype response = NetworkError | Http nat html

text \<open>
  The outside world: the response to the n-th request of the process, and the value of
  \<^verbatim>\<open>int(len(works_on_page) * (sampling_percentage / 100))\<close>, which is floating-point
  arithmetic and is taken as a parameter.
\<close>

record world =
  net :: "nat \<Rightarrow> response"
  sample_size_of :: "nat \<Rightarrow> int \<Rightarrow> int"

text \<open>A row of the CSV file: the header, or a work's identifier, title, publication date and kudos.\<close>

datatype row = Header | Row "string option" string string int

text \<open>The order of the writes to the Sink and of the additions to the seen-set, as a ghost trace.\<close>

datatype event = RowWritten "string option" | SeenAdded "string option"

text \<open>
  The two module globals, the four files (\<open>None\<close>: the file does not exist), the number of
  requests made so far, the random source and the ghost trace.
\<close>

record state =
  strata_counts :: "(int, nat) dict"
  seen_work_ids :: "string option set"
  csv_file :: "row list option"
  last_visited_page_txt :: "int option"
  seen_work_ids_txt :: "string option"
  strata_counts_json :: "(int, nat) dict option"
  fetches :: nat
  rng :: rng
  trace :: "event list"

datatype fmode = W | A

text \<open>The settings of \<^verbatim>\<open>config.ini\<close> after \<^verbatim>\<open>main\<close> has converted them.\<close>

record config =
  start_page :: int
  end_page :: "int option"
  max_work_count :: "int option"
  sampling_strategy :: "string option"
  sampling_percentage :: int
  sampling_n :: int
  kudos_bins :: "int list"
  file_mode :: fmode

text \<open>Python's truth value of an optional integer: \<^verbatim>\<open>None\<close> and 0 are false.\<close>

definition truthy :: "int option \<Rightarrow> bool" where
  "truthy v = (case v of None \<Rightarrow> False | Some n \<Rightarrow> n \<noteq> 0)"

section \<open>The sampling engine\<close>

text \<open>One iteration of \<^verbatim>\<open>for work in works_on_page\<close> in the strata branch.\<close>

definition categorize_work ::
  "int list \<Rightarrow> work \<Rightarrow> (int \<times> int, work list) dict \<times> (int, nat) dict \<Rightarrow>
   py_error + (int \<times> int, work list) dict \<times> (int, nat) dict" where
  "categorize_work bins w d =
     (case find_bin bins (kudos w) of
        None \<Rightarrow> Inr d
      | Some b \<Rightarrow>
          (case map_of (fst d) b of
             None \<Rightarrow> Inl KeyError
           | Some ws \<Rightarrow>
               (case map_of (snd d) (fst b) of
                  None \<Rightarrow> Inl KeyError
                | Some c \<Rightarrow>
                    Inr (AList.update b (ws @ [w]) (fst d), AList.update (fst b) (c + 1) (snd d)))))"

fun categorize ::
  "int list \<Rightarrow> work list \<Rightarrow> (int \<times> int, work list) dict \<times> (int, nat) dict \<Rightarrow>
   py_error + (int \<times> int, work list) dict \<times> (int, nat) dict" where
  "categorize bins [] d = Inr d"
| "categorize bins (w # ws) d =
     (case categorize_work bins w d of Inl e \<Rightarrow> Inl e | Inr d' \<Rightarrow> categorize bins ws d')"

text \<open>\<^verbatim>\<open>min(counts) if counts else 0\<close> over the positive per-bin counts of the page.\<close>

definition min_count_of :: "(int, nat) dict \<Rightarrow> nat" where
  "min_count_of current_page_strata_counts =
     (let counts = filter (\<lambda>c. 0 < c) (map snd current_page_strata_counts)
      in if counts = [] then 0 else min_list counts)"

text \<open>
  \<^verbatim>\<open>for (bin_start, bin_end), work_bin in works_by_kudos.items()\<close>: sample \<open>min_count\<close>
  works of every non-empty bin and add \<open>min_count\<close> to the bin's global counter.
\<close>

fun sample_bins ::
  "nat \<Rightarrow> (int \<times> int, work list) dict \<Rightarrow> work list \<Rightarrow> state \<Rightarrow> (py_error + work list) \<times> state" where
  "sample_bins min_count [] sampled s = (Inr sampled, s)"
| "sample_bins min_count (((bin_start, bin_end), work_bin) # rest) sampled s =
     (if 0 < length work_bin \<and> 0 < min_count then
        (case random_sample work_bin (int min_count) (rng s) of
           (Inl e, g) \<Rightarrow> (Inl e, s\<lparr>rng := g\<rparr>)
         | (Inr r, g) \<Rightarrow>
             sample_bins min_count rest (sampled @ r)
               (s\<lparr>rng := g,
                  strata_counts :=
                    AList.update bin_start
                      ((case map_of (strata_counts s) bin_start of None \<Rightarrow> 0 | Some c \<Rightarrow> c) + min_count)
                      (strata_counts s)\<rparr>))
      else sample_bins min_count rest sampled s)"

definition apply_sampling ::
  "world \<Rightarrow> string option \<Rightarrow> int \<Rightarrow> work list \<Rightarrow> int \<Rightarrow> int list \<Rightarrow> state \<Rightarrow>
   (py_error + work list) \<times> state" where
  "apply_sampling wd strategy percentage works_on_page n bins s =
     (if strategy = Some ''strata'' then
        (case categorize bins works_on_page
                (dict_init (bin_pairs bins) [], dict_init (butlast bins) 0) of
           Inl e \<Rightarrow> (Inl e, s)
         | Inr (works_by_kudos, current_page_strata_counts) \<Rightarrow>
             sample_bins (min_count_of current_page_strata_counts) works_by_kudos [] s)
      else if strategy = Some ''random'' then
        (case random_sample works_on_page
                (min (int (length works_on_page))
                     (sample_size_of wd (length works_on_page) percentage)) (rng s) of
           (r, g) \<Rightarrow> (r, s\<lparr>rng := g\<rparr>))
      else if strategy = Some ''systematic'' then
        (case random_randint 0 (n - 1) (rng s) of
           (Inl e, g) \<Rightarrow> (Inl e, s\<lparr>rng := g\<rparr>)
         | (Inr start, g) \<Rightarrow> (Inr (slice_from (nat start) (nat n) works_on_page), s\<lparr>rng := g\<rparr>))
      else (Inr works_on_page, s))"


section \<open>The fetcher\<close>

text \<open>\<^verbatim>\<open>requests.get\<close>: the next response of the outside world.\<close>

definition requests_get :: "world \<Rightarrow> state \<Rightarrow> response \<times> state" where
  "requests_get wd s = (net wd (fetches s), s\<lparr>fetches := Suc (fetches s)\<rparr>)"

text \<open>
  \<^verbatim>\<open>handle_rate_limit(response, page)\<close>: \<^verbatim>\<open>raise_for_status\<close> raises for a status in
  \<open>[400, 600)\<close>, which returns \<open>False\<close>; otherwise the marker phrase exits the process.
\<close>

definition handle_rate_limit :: "nat \<Rightarrow> html \<Rightarrow> int \<Rightarrow> bool outcome" where
  "handle_rate_limit status body page =
     (if 400 \<le> status \<and> status < 600 then Ok False
      else if retry_later body then Stop (RateLimited page)
      else Ok True)"

definition max_retries :: nat where
  "max_retries = 3"

text \<open>
  The retry loop of \<^verbatim>\<open>scrape_works\<close>, by the number of attempts that are left
  (\<open>max_retries - retry_count\<close>): a network error or a \<open>False\<close> of
  \<^verbatim>\<open>handle_rate_limit\<close> counts one retry, and the process exits when none is left.
\<close>

fun fetch_listing :: "nat \<Rightarrow> world \<Rightarrow> int \<Rightarrow> state \<Rightarrow> html outcome \<times> state" where
  "fetch_listing 0 wd page s = (Stop (RetriesExhausted page), s)"
| "fetch_listing (Suc left) wd page s =
     (case requests_get wd s of
        (NetworkError, s1) \<Rightarrow> fetch_listing left wd page s1
      | (Http status body, s1) \<Rightarrow>
          (case handle_rate_limit status body page of
             Ok True \<Rightarrow> (Ok body, s1)
           | Ok False \<Rightarrow> fetch_listing left wd page s1
           | Stop r \<Rightarrow> (Stop r, s1)))"

text \<open>
  The fetch of the work's own page in \<^verbatim>\<open>scrape_single_work\<close>: any exception and any
  \<open>False\<close> of \<^verbatim>\<open>handle_rate_limit\<close> give the date \<^verbatim>\<open>"Unknown"\<close>; the exit of
  \<^verbatim>\<open>handle_rate_limit\<close> is not an \<^verbatim>\<open>Exception\<close> and ends the process.
\<close>

definition fetch_published :: "world \<Rightarrow> int \<Rightarrow> state \<Rightarrow> string outcome \<times> state" where
  "fetch_published wd page s =
     (case requests_get wd s of
        (NetworkError, s1) \<Rightarrow> (Ok ''Unknown'', s1)
      | (Http status body, s1) \<Rightarrow>
          (case handle_rate_limit status body page of
             Ok True \<Rightarrow> (Ok (published body), s1)
           | Ok False \<Rightarrow> (Ok ''Unknown'', s1)
           | Stop r \<Rightarrow> (Stop r, s1)))"

section \<open>Emitting one work\<close>

text \<open>\<^verbatim>\<open>date_published.replace("-", ".")\<close>\<close>

definition dots :: "string \<Rightarrow> string" where
  "dots d = map (\<lambda>c. if c = CHR ''-'' then CHR ''.'' else c) d"

definition newline :: char where
  "newline = CHR 0x0A"

text \<open>\<^verbatim>\<open>csvwriter.writerow\<close> on the open file.\<close>

definition writerow :: "row \<Rightarrow> state \<Rightarrow> state" where
  "writerow r s = s\<lparr>csv_file := Some ((case csv_file s of None \<Rightarrow> [] | Some rs \<Rightarrow> rs) @ [r])\<rparr>"

text \<open>
  The part of \<^verbatim>\<open>scrape_single_work\<close> after the fetch: write the row, add the identifier to
  the seen-set, append it to \<^verbatim>\<open>seen_work_ids.txt\<close> (\<^verbatim>\<open>None + '\n'\<close> is a
  \<^verbatim>\<open>TypeError\<close>, raised once \<^verbatim>\<open>open\<close> has created the file), count the work in its bin,
  and dump the counters.
\<close>

definition record_work :: "int list \<Rightarrow> work \<Rightarrow> string \<Rightarrow> string \<Rightarrow> state \<Rightarrow> unit outcome \<times> state" where
  "record_work bins w t date_published s =
     (let s1 = (writerow (Row (work_id w) t (dots date_published) (kudos w)) s)
                \<lparr>trace := trace s @ [RowWritten (work_id w)]\<rparr>;
          s2 = s1\<lparr>seen_work_ids := insert (work_id w) (seen_work_ids s1),
                  trace := trace s1 @ [SeenAdded (work_id w)]\<rparr>
      in case work_id w of
           None \<Rightarrow>
             (Stop (Uncaught TypeError),
              s2\<lparr>seen_work_ids_txt := Some (case seen_work_ids_txt s2 of None \<Rightarrow> [] | Some c \<Rightarrow> c)\<rparr>)
         | Some i \<Rightarrow>
             (let s3 = s2\<lparr>seen_work_ids_txt :=
                           Some ((case seen_work_ids_txt s2 of None \<Rightarrow> [] | Some c \<Rightarrow> c) @ i @ [newline])\<rparr>
              in case find_bin bins (kudos w) of
                   None \<Rightarrow> (Ok (), s3\<lparr>strata_counts_json := Some (strata_counts s3)\<rparr>)
                 | Some b \<Rightarrow>
                     (case map_of (strata_counts s3) (fst b) of
                        None \<Rightarrow> (Stop (Uncaught KeyError), s3)
                      | Some c \<Rightarrow>
                          (let s4 = s3\<lparr>strata_counts := AList.update (fst b) (c + 1) (strata_counts s3)\<rparr>
                           in (Ok (), s4\<lparr>strata_counts_json := Some (strata_counts s4)\<rparr>)))))"

definition scrape_single_work :: "world \<Rightarrow> int list \<Rightarrow> int \<Rightarrow> work \<Rightarrow> state \<Rightarrow> unit outcome \<times> state" where
  "scrape_single_work wd bins page w s =
     (case title w of
        None \<Rightarrow> (Ok (), s)
      | Some t \<Rightarrow>
          if work_id w \<in> seen_work_ids s then (Ok (), s)
          else
            (case fetch_published wd page s of
               (Ok date_published, s1) \<Rightarrow> record_work bins w t date_published s1
             | (Stop r, s1) \<Rightarrow> (Stop r, s1)))"

section \<open>The crawl controller\<close>

text \<open>\<^verbatim>\<open>max_work_count and work_count >= max_work_count\<close>\<close>

definition max_reached :: "int option \<Rightarrow> nat \<Rightarrow> bool" where
  "max_reached m work_count = (case m of None \<Rightarrow> False | Some k \<Rightarrow> k \<noteq> 0 \<and> k \<le> int work_count)"

text \<open>\<^verbatim>\<open>end_page and page > end_page\<close>\<close>

definition past_end :: "int option \<Rightarrow> int \<Rightarrow> bool" where
  "past_end e page = (case e of None \<Rightarrow> False | Some k \<Rightarrow> k \<noteq> 0 \<and> k < page)"

text \<open>
  \<^verbatim>\<open>for work in sampled_works\<close>: the result is \<open>work_count\<close> and \<open>should_break\<close>.
\<close>

fun scrape_page ::
  "config \<Rightarrow> world \<Rightarrow> int \<Rightarrow> work list \<Rightarrow> nat \<Rightarrow> state \<Rightarrow> (nat \<times> bool) outcome \<times> state" where
  "scrape_page cfg wd page [] work_count s = (Ok (work_count, False), s)"
| "scrape_page cfg wd page (w # ws) work_count s =
     (if work_id w \<in> seen_work_ids s then scrape_page cfg wd page ws work_count s
      else
        (case scrape_single_work wd (kudos_bins cfg) page w s of
           (Ok u, s1) \<Rightarrow>
             if max_reached (max_work_count cfg) (Suc work_count)
             then (Ok (Suc work_count, True), s1)
             else scrape_page cfg wd page ws (Suc work_count) s1
         | (Stop r, s1) \<Rightarrow> (Stop r, s1)))"

text \<open>
  \<^verbatim>\<open>while True\<close> over the pages, with fuel: one unit per page.
  \<^verbatim>\<open>last_visited_page.txt\<close> is written once the page is fetched and sampled, before
  its first work is scraped.
\<close>

fun page_loop :: "nat \<Rightarrow> config \<Rightarrow> world \<Rightarrow> int \<Rightarrow> nat \<Rightarrow> state \<Rightarrow> run \<times> state" where
  "page_loop 0 cfg wd page work_count s = (Unfinished page work_count, s)"
| "page_loop (Suc fuel) cfg wd page work_count s =
     (if past_end (end_page cfg) page then (Returned page work_count False, s)
      else
        (case fetch_listing max_retries wd page s of
           (Ok soup, s1) \<Rightarrow>
             (case apply_sampling wd (sampling_strategy cfg) (sampling_percentage cfg) (works soup)
                     (sampling_n cfg) (kudos_bins cfg) s1 of
                (Inl e, s2) \<Rightarrow> (Halted page Sampling (Uncaught e), s2)
              | (Inr sampled_works, s2) \<Rightarrow>
                  (case scrape_page cfg wd page sampled_works work_count
                          (s2\<lparr>last_visited_page_txt := Some page\<rparr>) of
                     (Ok (work_count', should_break), s3) \<Rightarrow>
                       if should_break then (Returned page work_count' True, s3)
                       else page_loop fuel cfg wd (page + 1) work_count' s3
                   | (Stop r, s3) \<Rightarrow> (Halted page Emitting r, s3)))
         | (Stop r, s1) \<Rightarrow> (Halted page Fetching r, s1)))"

subsection \<open>Loading the seen-set\<close>

text \<open>
  \<^verbatim>\<open>f.read().strip().split('\n')\<close>. Reading in text mode turns \<^verbatim>\<open>\r\n\<close> and a lone
  \<^verbatim>\<open>\r\<close> into \<^verbatim>\<open>\n\<close>; whitespace is what \<^verbatim>\<open>str.isspace\<close> accepts among the first
  256 code points.
\<close>

fun universal_newlines :: "string \<Rightarrow> string" where
  "universal_newlines [] = []"
| "universal_newlines [c] = (if c = CHR 0x0D then [CHR 0x0A] else [c])"
| "universal_newlines (c # d # t) =
     (if c = CHR 0x0D then
        (if d = CHR 0x0A then CHR 0x0A # universal_newlines t
         else CHR 0x0A # universal_newlines (d # t))
      else c # universal_newlines (d # t))"

definition is_space :: "char \<Rightarrow> bool" where
  "is_space c =
     (c \<in> {CHR 0x09, CHR 0x0A, CHR 0x0B, CHR 0x0C, CHR 0x0D, CHR 0x1C, CHR 0x1D, CHR 0x1E,
            CHR 0x1F, CHR 0x20, CHR 0x85, CHR 0xA0})"

definition py_strip :: "string \<Rightarrow> string" where
  "py_strip t = rev (dropWhile is_space (rev (dropWhile is_space t)))"

fun py_split :: "char \<Rightarrow> string \<Rightarrow> string list" where
  "py_split c [] = [[]]"
| "py_split c (x # xs) =
     (if x = c then [] # py_split c xs
      else (case py_split c xs of [] \<Rightarrow> [[x]] | y # ys \<Rightarrow> (x # y) # ys))"

definition load_seen :: "string \<Rightarrow> string option set" where
  "load_seen content = Some ` set (py_split newline (py_strip (universal_newlines content)))"

subsection \<open>scrape_works and main\<close>

text \<open>
  \<^verbatim>\<open>scrape_works\<close>: reset the global counters, load the seen-set, open the CSV file in
  \<open>file_mode\<close> (writing the header unless appending to an existing file), start at the
  persisted page when there is one, and loop.
\<close>

definition open_csv :: "fmode \<Rightarrow> state \<Rightarrow> state" where
  "open_csv m s =
     (let write_header = \<not> (m = A \<and> csv_file s \<noteq> None);
          s1 = (case m of
                  W \<Rightarrow> s\<lparr>csv_file := Some []\<rparr>
                | A \<Rightarrow> s\<lparr>csv_file := Some (case csv_file s of None \<Rightarrow> [] | Some rs \<Rightarrow> rs)\<rparr>)
      in if write_header then writerow Header s1 else s1)"

text \<open>Lines 175 to 197 of \<^verbatim>\<open>scrape_works\<close>: everything before the start page is chosen.\<close>

definition prepare :: "config \<Rightarrow> state \<Rightarrow> state" where
  "prepare cfg s =
     (let s1 = s\<lparr>strata_counts := dict_init (butlast (kudos_bins cfg)) 0\<rparr>;
          s2 = (case seen_work_ids_txt s1 of
                  None \<Rightarrow> s1
                | Some content \<Rightarrow> s1\<lparr>seen_work_ids := seen_work_ids s1 \<union> load_seen content\<rparr>)
      in open_csv (file_mode cfg) s2)"

text \<open>\<^verbatim>\<open>if last_visited_page: start_page = last_visited_page\<close>\<close>

definition resume_page :: "int \<Rightarrow> int option \<Rightarrow> int" where
  "resume_page start last_visited_page =
     (case last_visited_page of None \<Rightarrow> start | Some p \<Rightarrow> if p \<noteq> 0 then p else start)"

definition scrape_works :: "nat \<Rightarrow> config \<Rightarrow> int option \<Rightarrow> world \<Rightarrow> state \<Rightarrow> run \<times> state" where
  "scrape_works fuel cfg last_visited_page wd s =
     page_loop fuel cfg wd (resume_page (start_page cfg) last_visited_page) 0 (prepare cfg s)"

text \<open>
  \<^verbatim>\<open>main\<close>, from the converted settings on. The process starts with empty globals
  (\<open>boot\<close>); with \<open>max_work_count\<close> set the page range is replaced (\<open>effective\<close>); the
  counters are read from \<^verbatim>\<open>strata_counts.json\<close> or initialised (and reset again by
  \<^verbatim>\<open>scrape_works\<close>); when \<^verbatim>\<open>scrape_works\<close> returns, the three state files are
  removed (\<open>cleanup\<close>).
\<close>

definition effective :: "config \<Rightarrow> config" where
  "effective cfg =
     (if truthy (max_work_count cfg) then cfg\<lparr>start_page := 1, end_page := None\<rparr> else cfg)"

definition boot :: "config \<Rightarrow> state \<Rightarrow> state" where
  "boot cfg s0 =
     s0\<lparr>seen_work_ids := {},
        strata_counts :=
          (case strata_counts_json s0 of
             Some d \<Rightarrow> d
           | None \<Rightarrow> dict_init (butlast (kudos_bins cfg)) 0)\<rparr>"

definition remove_state_files :: "state \<Rightarrow> state" where
  "remove_state_files s =
     s\<lparr>last_visited_page_txt := None, seen_work_ids_txt := None, strata_counts_json := None\<rparr>"

definition cleanup :: "run \<times> state \<Rightarrow> run \<times> state" where
  "cleanup rs =
     (case rs of
        (Returned page work_count should_break, s) \<Rightarrow>
          (Returned page work_count should_break, remove_state_files s)
      | (Halted page ph r, s) \<Rightarrow> (Halted page ph r, s)
      | (Unfinished page work_count, s) \<Rightarrow> (Unfinished page work_count, s))"

definition main :: "nat \<Rightarrow> config \<Rightarrow> world \<Rightarrow> state \<Rightarrow> run \<times> state" where
  "main fuel cfg wd s0 =
     cleanup (scrape_works fuel (effective cfg) (last_visited_page_txt s0) wd (boot (effective cfg) s0))"

section \<open>The specification's words\<close>

text \<open>The items of a page that fall in a bin, and the page's minimum positive bin count.\<close>

definition bin_items :: "int \<times> int \<Rightarrow> work list \<Rightarrow> work list" where
  "bin_items b ws = filter (\<lambda>w. in_bin (kudos w) b) ws"

definition page_min :: "int list \<Rightarrow> work list \<Rightarrow> nat" where
  "page_min bins ws =
     (let counts = filter (\<lambda>c. 0 < c) (map (\<lambda>b. length (bin_items b ws)) (bin_pairs bins))
      in if counts = [] then 0 else Min (set counts))"

section \<open>Predicates of the theorems\<close>

text \<open>
  The value of \<^verbatim>\<open>last_visited_page.txt\<close> behind the controller: at page \<open>p\<close> it is
  \<open>p - 1\<close>, or what the run found on disk when \<open>p\<close> is the run's first page.
\<close>

definition behind :: "int \<Rightarrow> int option \<Rightarrow> int \<Rightarrow> int option" where
  "behind first persisted p = (if p = first then persisted else Some (p - 1))"

definition expected_last_visited :: "int \<Rightarrow> int option \<Rightarrow> run \<Rightarrow> int option" where
  "expected_last_visited first persisted r =
     (case r of
        Returned p work_count should_break \<Rightarrow> if should_break then Some p else behind first persisted p
      | Halted p ph reason \<Rightarrow> if ph = Emitting then Some p else behind first persisted p
      | Unfinished p work_count \<Rightarrow> behind first persisted p)"

definition run_page :: "run \<Rightarrow> int" where
  "run_page r = (case r of Returned p _ _ \<Rightarrow> p | Halted p _ _ \<Rightarrow> p | Unfinished p _ \<Rightarrow> p)"

text \<open>The persisted page after \<^verbatim>\<open>main\<close>: the file is removed when the crawl returns.\<close>

definition persisted_after :: "int \<Rightarrow> int option \<Rightarrow> run \<Rightarrow> int option" where
  "persisted_after first persisted r =
     (case r of
        Returned p work_count should_break \<Rightarrow> None
      | Halted p ph reason \<Rightarrow> if ph = Emitting then Some p else behind first persisted p
      | Unfinished p work_count \<Rightarrow> behind first persisted p)"

text \<open>No state file that exists in \<open>s\<close> is missing in \<open>s'\<close>.\<close>

definition files_kept :: "state \<Rightarrow> state \<Rightarrow> bool" where
  "files_kept s s' =
     ((last_visited_page_txt s = None \<or> last_visited_page_txt s' \<noteq> None) \<and>
      (seen_work_ids_txt s = None \<or> seen_work_ids_txt s' \<noteq> None) \<and>
      (strata_counts_json s = None \<or> strata_counts_json s' \<noteq> None))"

text \<open>Why a crawl that returned did so: the count was reached, or the end page was passed.\<close>

definition return_cause :: "config \<Rightarrow> run \<Rightarrow> bool" where
  "return_cause cfg r =
     (case r of
        Returned p work_count should_break \<Rightarrow>
          if should_break then max_reached (max_work_count cfg) work_count
          else past_end (end_page cfg) p
      | Halted p ph reason \<Rightarrow> True
      | Unfinished p work_count \<Rightarrow> True)"

text \<open>
  A response that is a page without works, and the settings under which sampling a page
  without works does not raise (\<^verbatim>\<open>random.sample\<close> with a negative size and
  \<^verbatim>\<open>random.randint(0, sampling_n - 1)\<close> with \<open>sampling_n < 1\<close> do).
\<close>

definition empty_page :: "response \<Rightarrow> bool" where
  "empty_page r =
     (case r of
        NetworkError \<Rightarrow> False
      | Http status body \<Rightarrow> \<not> (400 \<le> status \<and> status < 600) \<and> \<not> retry_later body \<and> works body = [])"

definition samples_empty_page :: "config \<Rightarrow> world \<Rightarrow> bool" where
  "samples_empty_page cfg wd =
     ((sampling_strategy cfg \<noteq> Some ''random'' \<or> 0 \<le> sample_size_of wd 0 (sampling_percentage cfg)) \<and>
      (sampling_strategy cfg \<noteq> Some ''systematic'' \<or> 1 \<le> sampling_n cfg))"

text \<open>
  A response that passes \<^verbatim>\<open>raise_for_status\<close> and carries the marker phrase; an outcome
  and a run that were stopped by \<^verbatim>\<open>handle_rate_limit\<close>.
\<close>

definition marker_response :: "response \<Rightarrow> bool" where
  "marker_response r =
     (case r of
        NetworkError \<Rightarrow> False
      | Http status body \<Rightarrow> \<not> (400 \<le> status \<and> status < 600) \<and> retry_later body)"

definition limited_stop :: "'a outcome \<Rightarrow> bool" where
  "limited_stop r = (case r of Ok v \<Rightarrow> False | Stop reason \<Rightarrow> (case reason of RateLimited p \<Rightarrow> True | _ \<Rightarrow> False))"

definition limited_run :: "run \<Rightarrow> bool" where
  "limited_run r =
     (case r of
        Halted p ph reason \<Rightarrow> (case reason of RateLimited q \<Rightarrow> True | _ \<Rightarrow> False)
      | _ \<Rightarrow> False)"

text \<open>Between two states, a marker response is the last response received and stops the run.\<close>

definition halts_at_marker :: "world \<Rightarrow> state \<Rightarrow> bool \<Rightarrow> state \<Rightarrow> bool" where
  "halts_at_marker wd s stopped s' =
     (fetches s \<le> fetches s' \<and>
      (\<forall>k. fetches s \<le> k \<and> k < fetches s' \<and> marker_response (net wd k) \<longrightarrow>
           Suc k = fetches s' \<and> stopped))"

text \<open>The records of the Sink whose score falls in a bin.\<close>

definition emitted_in_bin :: "int \<times> int \<Rightarrow> state \<Rightarrow> nat" where
  "emitted_in_bin b s =
     length (filter (\<lambda>r. case r of Header \<Rightarrow> False | Row i t d k \<Rightarrow> in_bin k b)
               (case csv_file s of None \<Rightarrow> [] | Some rs \<Rightarrow> rs))"

text \<open>
  The Sink as the list of the identifiers of its records, in the order written; \<open>sink_ids\<close>
  leaves out the records of works without an \<^verbatim>\<open>id\<close> attribute.
\<close>

fun records :: "row list \<Rightarrow> string option list" where
  "records [] = []"
| "records (Header # rs) = records rs"
| "records (Row i t d k # rs) = i # records rs"

definition sink :: "state \<Rightarrow> string option list" where
  "sink s = records (case csv_file s of None \<Rightarrow> [] | Some rs \<Rightarrow> rs)"

definition sink_ids :: "state \<Rightarrow> string list" where
  "sink_ids s = List.map_filter (\<lambda>i. i) (sink s)"

text \<open>
  One step of \<^verbatim>\<open>scrape_single_work\<close> per emitted record: the row is written, then the
  identifier is added to the seen-set.
\<close>

definition pairs_of :: "string option list \<Rightarrow> event list" where
  "pairs_of n = concat (map (\<lambda>i. [RowWritten i, SeenAdded i]) n)"

text \<open>
  Between two states, records are written and their identifiers added, and nothing else; the
  identifiers written differ from each other and from those the seen-set held.
\<close>

definition emits :: "state \<Rightarrow> state \<Rightarrow> bool" where
  "emits s s' =
     (\<exists>n. sink s' = sink s @ n \<and> seen_work_ids s' = seen_work_ids s \<union> set n \<and>
          trace s' = trace s @ pairs_of n \<and> distinct n \<and> set n \<inter> seen_work_ids s = {})"

text \<open>The seen-set a run starts from: what \<^verbatim>\<open>scrape_works\<close> reads from the file.\<close>

definition loaded :: "state \<Rightarrow> string option set" where
  "loaded s = (case seen_work_ids_txt s of None \<Rightarrow> {} | Some content \<Rightarrow> load_seen content)"

text \<open>
  An identifier that \<^verbatim>\<open>seen_work_ids.txt\<close> gives back as written: not empty and free of
  whitespace (\<^verbatim>\<open>strip\<close> and \<^verbatim>\<open>split\<close> are applied to the whole file).
\<close>

definition clean_id :: "string \<Rightarrow> bool" where
  "clean_id i = (i \<noteq> [] \<and> list_all (\<lambda>c. \<not> is_space c) i)"

definition clean_work :: "work \<Rightarrow> bool" where
  "clean_work w = (case work_id w of None \<Rightarrow> True | Some i \<Rightarrow> clean_id i)"

definition clean_world :: "world \<Rightarrow> bool" where
  "clean_world wd =
     (\<forall>k. case net wd k of NetworkError \<Rightarrow> True | Http status body \<Rightarrow> list_all clean_work (works body))"

text \<open>The content of \<^verbatim>\<open>seen_work_ids.txt\<close> after the identifiers were appended in turn.\<close>

definition seen_lines :: "string list \<Rightarrow> string" where
  "seen_lines ids = concat (map (\<lambda>i. i @ [newline]) ids)"

fun joined :: "string list \<Rightarrow> string" where
  "joined [] = []"
| "joined [i] = i"
| "joined (i # j # ids) = i @ newline # joined (j # ids)"

text \<open>
  A disk from which a run can be resumed: the records of the Sink have distinct identifiers, all
  of them listed in \<^verbatim>\<open>seen_work_ids.txt\<close>. \<open>in_step\<close> adds that the seen-set in memory holds
  them too.
\<close>

definition resumable :: "state \<Rightarrow> bool" where
  "resumable s =
     (distinct (sink_ids s) \<and>
      (\<exists>ids. list_all clean_id ids \<and> set (sink_ids s) \<subseteq> set ids \<and>
         (case seen_work_ids_txt s of None \<Rightarrow> ids = [] | Some content \<Rightarrow> content = seen_lines ids)))"

definition in_step :: "state \<Rightarrow> bool" where
  "in_step s = (resumable s \<and> Some ` set (sink_ids s) \<subseteq> seen_work_ids s)"

text \<open>The works held by a dictionary of bins.\<close>

definition binned :: "(int \<times> int, work list) dict \<Rightarrow> work set" where
  "binned d = (\<Union>(b, ws) \<in> set d. set ws)"

text \<open>
  Runs of the program one after the other: each run starts from the disk the run before left,
  however that run ended. The count of requests goes on, so that every run receives its own
  responses.
\<close>

fun session :: "(nat \<times> config \<times> world) list \<Rightarrow> state \<Rightarrow> state" where
  "session [] s = s"
| "session ((fuel, cfg, wd) # rest) s = session rest (snd (main fuel cfg wd s))"

text \<open>
  No run in append mode follows a run that returned: after a run whose crawl returned (and whose
  state files \<^verbatim>\<open>main\<close> removed), the next run opens the Sink in mode \<^verbatim>\<open>w\<close>.
\<close>

fun appends_after_halt :: "(nat \<times> config \<times> world) list \<Rightarrow> state \<Rightarrow> bool" where
  "appends_after_halt [] s = True"
| "appends_after_halt [r] s = True"
| "appends_after_halt ((fuel, cfg, wd) # (fuel', cfg', wd') # rest) s =
     ((case fst (main fuel cfg wd s) of
         Returned p work_count should_break \<Rightarrow> file_mode cfg' = W
       | Halted p ph reason \<Rightarrow> True
       | Unfinished p work_count \<Rightarrow> True) \<and>
      appends_after_halt ((fuel', cfg', wd') # rest) (snd (main fuel cfg wd s)))"

section \<open>Example inputs\<close>

definition item :: "string \<Rightarrow> int \<Rightarrow> work" where
  "item i k = \<lparr>work_id = Some i, title = Some (''Work '' @ i), kudos = k\<rparr>"

text \<open>A page with five works in \<open>[0, 100)\<close>, two in \<open>[100, 500)\<close> and none in \<open>[500, 1000)\<close>.\<close>

definition page_5_2_0 :: "work list" where
  "page_5_2_0 =
     [item ''1'' 5, item ''2'' 150, item ''3'' 20, item ''4'' 99, item ''5'' 499, item ''6'' 0,
      item ''7'' 50]"

definition fresh :: "rng \<Rightarrow> state" where
  "fresh g =
     \<lparr>strata_counts = [], seen_work_ids = {}, csv_file = None, last_visited_page_txt = None,
      seen_work_ids_txt = None, strata_counts_json = None, fetches = 0, rng = g, trace = []\<rparr>"

definition offline :: world where
  "offline = \<lparr>net = (\<lambda>n. NetworkError), sample_size_of = (\<lambda>n p. (int n * p) div 100)\<rparr>"

text \<open>A world that answers the first requests from a list and every later one with \<open>d\<close>.\<close>

definition replay :: "response list \<Rightarrow> response \<Rightarrow> nat \<Rightarrow> response" where
  "replay rs d n = (if n < length rs then rs ! n else d)"

definition serving :: "response list \<Rightarrow> response \<Rightarrow> world" where
  "serving rs d = \<lparr>net = replay rs d, sample_size_of = (\<lambda>n p. (int n * p) div 100)\<rparr>"

definition ok_page :: "work list \<Rightarrow> response" where
  "ok_page ws = Http 200 \<lparr>retry_later = False, works = ws, published = ''2020-01-02''\<rparr>"

text \<open>The rate-limit marker in a 200 response, and the status reserved for rate limiting.\<close>

definition limited :: response where
  "limited = Http 200 \<lparr>retry_later = True, works = [], published = []\<rparr>"

definition too_many :: response where
  "too_many = Http 429 \<lparr>retry_later = False, works = [], published = []\<rparr>"

definition settings :: config where
  "settings =
     \<lparr>start_page = 1, end_page = None, max_work_count = None, sampling_strategy = None,
      sampling_percentage = 50, sampling_n = 2, kudos_bins = [0, 100, 500, 1000, 5000],
      file_mode = W\<rparr>"

definition untitled :: "string \<Rightarrow> int \<Rightarrow> work" where
  "untitled i k = \<lparr>work_id = Some i, title = None, kudos = k\<rparr>"

text \<open>A page of ten works whose first has no title element.\<close>

definition ten_works :: "work list" where
  "ten_works =
     [untitled ''1'' 5, item ''2'' 7, item ''3'' 8, item ''4'' 9, item ''5'' 10, item ''6'' 11,
      item ''7'' 12, item ''8'' 13, item ''9'' 14, item ''10'' 15]"

text \<open>The disk of a run that is resumed after page 1 with one work seen.\<close>

definition resumed :: state where
  "resumed =
     (fresh [])\<lparr>last_visited_page_txt := Some 1, seen_work_ids_txt := Some (''1'' @ [newline]),
                strata_counts_json := Some [(0, 1), (100, 0), (500, 0), (1000, 0)]\<rparr>"

text \<open>A listing of one work on its page and the work's own page, served twice.\<close>

definition twice :: "work list \<Rightarrow> world" where
  "twice listing = serving [ok_page listing, ok_page [], ok_page listing, ok_page []] (ok_page [])"

text \<open>
  Two runs over a listing of one page: the listing, a work page, then the rate-limit marker, for
  the first run and again for the second.
\<close>

definition revisit :: "work list \<Rightarrow> work list \<Rightarrow> world" where
  "revisit first_visit second_visit =
     serving [ok_page first_visit, ok_page [], limited, ok_page second_visit, ok_page [], limited]
       (ok_page [])"

section \<open>Slices\<close>

lemma multiples_upt:
  assumes "0 < n" "0 < L"
  shows "filter (\<lambda>i. i mod n = 0) [0..<L] = 0 # map (\<lambda>i. i + n) (filter (\<lambda>i. i mod n = 0) [0..<L - n])"
proof -
  have split: "[0..<L] = 0 # [1..<min n L] @ [min n L..<L]"
  proof -
    define m where "m = min n L"
    have m: "1 \<le> m" "m \<le> L" using assms by (simp_all add: m_def)
    have "[0..<L] = 0 # [1..<L]" using assms by (simp add: upt_conv_Cons)
    moreover have "[1..<L] = [1..<m] @ [m..<L]"
      using m upt_add_eq_append [of 1 m "L - m"] by simp
    ultimately show ?thesis by (simp add: m_def)
  qed
  have none: "filter (\<lambda>i. i mod n = 0) [1..<min n L] = []"
    by (auto simp: filter_empty_conv)
  have shift: "[min n L..<L] = map (\<lambda>i. i + n) [0..<L - n]"
  proof (cases "n \<le> L")
    case True
    then have "[n..<L] = map (\<lambda>i. i + n) [0..<L - n]"
      by (simp add: map_add_upt)
    with True show ?thesis by (simp add: min_def)
  next
    case False
    then show ?thesis by simp
  qed
  have "filter (\<lambda>i. i mod n = 0) (map (\<lambda>i. i + n) [0..<L - n])
        = map (\<lambda>i. i + n) (filter (\<lambda>i. i mod n = 0) [0..<L - n])"
    by (simp add: filter_map comp_def)
  with split none shift show ?thesis by simp
qed

lemma stride_indices:
  "0 < n \<Longrightarrow> stride n xs = map (\<lambda>i. xs ! i) (filter (\<lambda>i. i mod n = 0) [0..<length xs])"
proof (induction n xs rule: stride.induct)
  case (1 n)
  show ?case by simp
next
  case (2 n x xs)
  let ?ys = "x # xs"
  have d: "drop (n - 1) xs = drop n ?ys" using "2.prems" by (cases n) simp_all
  have len: "length (drop n ?ys) = length ?ys - n" by simp
  have "stride n (drop n ?ys) = map (\<lambda>i. drop n ?ys ! i) (filter (\<lambda>i. i mod n = 0) [0..<length ?ys - n])"
    using "2.IH" "2.prems" d len by simp
  also have "\<dots> = map (\<lambda>i. ?ys ! (i + n)) (filter (\<lambda>i. i mod n = 0) [0..<length ?ys - n])"
    by (rule map_cong) (auto simp: add.commute)
  finally have IH: "stride n (drop n ?ys) = map (\<lambda>i. ?ys ! (i + n)) (filter (\<lambda>i. i mod n = 0) [0..<length ?ys - n])" .
  have "stride n ?ys = x # stride n (drop n ?ys)" using d by simp
  also have "\<dots> = map (\<lambda>i. ?ys ! i) (0 # map (\<lambda>i. i + n) (filter (\<lambda>i. i mod n = 0) [0..<length ?ys - n]))"
    using IH by (simp add: comp_def)
  also have "\<dots> = map (\<lambda>i. ?ys ! i) (filter (\<lambda>i. i mod n = 0) [0..<length ?ys])"
    using multiples_upt [of n "length ?ys"] "2.prems" by simp
  finally show ?case .
qed

lemma slice_from_every_nth:
  assumes "0 < n"
  shows "slice_from r n xs = every_nth_from r n xs"
proof (cases "r \<le> length xs")
  case True
  have up: "[0..<length xs] = [0..<r] @ map (\<lambda>i. i + r) [0..<length xs - r]"
    using True upt_add_eq_append [of 0 r "length xs - r"] map_add_upt [of r "length xs - r"]
    by simp
  have f1: "filter (\<lambda>i. r \<le> i \<and> (i - r) mod n = 0) [0..<r] = []"
    by (auto simp: filter_empty_conv)
  have f2: "filter (\<lambda>i. r \<le> i \<and> (i - r) mod n = 0) (map (\<lambda>i. i + r) [0..<length xs - r])
            = map (\<lambda>i. i + r) (filter (\<lambda>i. i mod n = 0) [0..<length xs - r])"
    by (simp add: filter_map comp_def)
  have "every_nth_from r n xs = map (\<lambda>i. xs ! (i + r)) (filter (\<lambda>i. i mod n = 0) [0..<length xs - r])"
    unfolding every_nth_from_def by (subst up) (simp add: f1 f2 comp_def)
  also have "\<dots> = map (\<lambda>i. drop r xs ! i) (filter (\<lambda>i. i mod n = 0) [0..<length xs - r])"
    using True by (intro map_cong) (auto simp: add.commute)
  also have "\<dots> = slice_from r n xs"
    unfolding slice_from_def using stride_indices [OF assms, of "drop r xs"] by simp
  finally show ?thesis by simp
next
  case False
  then have "filter (\<lambda>i. r \<le> i \<and> (i - r) mod n = 0) [0..<length xs] = []"
    by (auto simp: filter_empty_conv)
  with False show ?thesis by (simp add: slice_from_def every_nth_from_def)
qed

section \<open>Strata sampling\<close>

subsection \<open>random.sample\<close>

lemma randbelow_less: "0 < n \<Longrightarrow> fst (randbelow n g) < n"
  by (simp add: randbelow_def split: list.splits)

lemma mset_swap_out:
  assumes "j < length pool"
  shows "mset (butlast (pool[j := last pool])) + {#pool ! j#} = mset pool"
proof (cases pool rule: rev_cases)
  case Nil
  with assms show ?thesis by simp
next
  case (snoc ys l)
  show ?thesis
  proof (cases "j < length ys")
    case True
    then have "butlast (pool[j := last pool]) = ys[j := l]"
      using snoc by (simp add: list_update_append)
    moreover have "pool ! j = ys ! j" using True snoc by (simp add: nth_append)
    ultimately show ?thesis using True snoc by (simp add: mset_update)
  next
    case False
    with assms snoc have j: "j = length ys" by simp
    then show ?thesis using snoc by simp
  qed
qed

lemma sample_pool_spec:
  "k \<le> length pool \<Longrightarrow>
     length (fst (sample_pool k pool g)) = k \<and> mset (fst (sample_pool k pool g)) \<subseteq># mset pool"
proof (induction k arbitrary: pool g)
  case 0
  show ?case by simp
next
  case (Suc k)
  obtain j g' where rb: "randbelow (length pool) g = (j, g')" by (cases "randbelow (length pool) g")
  from Suc.prems have pos: "0 < length pool" by auto
  with rb randbelow_less [of "length pool" g] have j: "j < length pool" by simp
  let ?pool' = "butlast (pool[j := last pool])"
  obtain rest g'' where sp: "sample_pool k ?pool' g' = (rest, g'')" by (cases "sample_pool k ?pool' g'")
  from Suc.prems have "k \<le> length ?pool'" by simp
  from Suc.IH [OF this, of g'] sp have rest: "length rest = k" "mset rest \<subseteq># mset ?pool'" by simp_all
  have "mset (pool ! j # rest) \<subseteq># mset ?pool' + {#pool ! j#}"
    using rest(2) by simp
  with mset_swap_out [OF j] have "mset (pool ! j # rest) \<subseteq># mset pool" by simp
  with rest(1) rb sp show ?case by simp
qed

lemma random_sample_ok:
  assumes "k \<le> length xs"
  shows "\<exists>r g'. random_sample xs (int k) g = (Inr r, g') \<and> length r = k \<and> mset r \<subseteq># mset xs"
proof -
  obtain r g' where sp: "sample_pool k xs g = (r, g')" by (cases "sample_pool k xs g")
  with sample_pool_spec [OF assms, of g] have "length r = k" "mset r \<subseteq># mset xs" by simp_all
  with assms sp show ?thesis by (simp add: random_sample_def)
qed

subsection \<open>bins\<close>

lemma bin_pairs_nth:
  "i < length (bin_pairs bins) \<Longrightarrow> bin_pairs bins ! i = (bins ! i, bins ! Suc i)"
  by (simp add: bin_pairs_def nth_butlast nth_tl)

lemma length_bin_pairs: "length (bin_pairs bins) = length bins - 1"
  by (simp add: bin_pairs_def)

lemma bins_disjoint:
  assumes inc: "sorted_wrt (<) bins"
    and b: "b \<in> set (bin_pairs bins)" and b': "b' \<in> set (bin_pairs bins)"
    and k: "in_bin k b" and k': "in_bin k b'"
  shows "b = b'"
proof -
  from b obtain i where i: "i < length (bin_pairs bins)" "bin_pairs bins ! i = b"
    by (auto simp: in_set_conv_nth)
  from b' obtain j where j: "j < length (bin_pairs bins)" "bin_pairs bins ! j = b'"
    by (auto simp: in_set_conv_nth)
  have bi: "b = (bins ! i, bins ! Suc i)" using i bin_pairs_nth by metis
  have bj: "b' = (bins ! j, bins ! Suc j)" using j bin_pairs_nth by metis
  have li: "Suc i < length bins" and lj: "Suc j < length bins"
    using i(1) j(1) by (simp_all add: length_bin_pairs)
  have mono: "\<And>p q. p \<le> q \<Longrightarrow> q < length bins \<Longrightarrow> bins ! p \<le> bins ! q"
  proof -
    fix p q assume "p \<le> q" "q < length bins"
    then show "bins ! p \<le> bins ! q"
      using inc by (cases "p = q") (auto simp: sorted_wrt_iff_nth_less dest!: le_neq_implies_less intro: less_imp_le)
  qed
  have "i = j"
  proof (rule ccontr)
    assume "i \<noteq> j"
    then consider "Suc i \<le> j" | "Suc j \<le> i" by force
    then show False
    proof cases
      case 1
      then have "bins ! Suc i \<le> bins ! j" using mono lj by simp
      with k k' bi bj show False by (simp add: in_bin_def)
    next
      case 2
      then have "bins ! Suc j \<le> bins ! i" using mono li by simp
      with k k' bi bj show False by (simp add: in_bin_def)
    qed
  qed
  with bi bj show ?thesis by simp
qed

lemma distinct_butlast_bins: "sorted_wrt (<) bins \<Longrightarrow> distinct (map fst (bin_pairs bins))"
proof -
  assume inc: "sorted_wrt (<) bins"
  then have "distinct bins" using strict_sorted_iff by blast
  then have "distinct (butlast bins)" by (rule distinct_butlast)
  moreover have "map fst (bin_pairs bins) = butlast bins"
    by (cases bins) (simp_all add: bin_pairs_def)
  ultimately show ?thesis by simp
qed

subsection \<open>dictionaries with distinct keys\<close>

lemma update_absent: "k \<notin> fst ` set d \<Longrightarrow> AList.update k v d = d @ [(k, v)]"
  by (induction d) auto

lemma dict_init_aux:
  "distinct ks \<Longrightarrow> set ks \<inter> fst ` set d = {} \<Longrightarrow>
   fold (\<lambda>k d. AList.update k v d) ks d = d @ map (\<lambda>k. (k, v)) ks"
proof (induction ks arbitrary: d)
  case Nil
  show ?case by simp
next
  case (Cons k ks)
  from Cons.prems have "k \<notin> fst ` set d" by auto
  then have u: "AList.update k v d = d @ [(k, v)]" by (rule update_absent)
  have "set ks \<inter> fst ` set (d @ [(k, v)]) = {}" using Cons.prems by auto
  with Cons.IH [of "d @ [(k, v)]"] Cons.prems u show ?case by simp
qed

lemma dict_init_distinct: "distinct ks \<Longrightarrow> dict_init ks v = map (\<lambda>k. (k, v)) ks"
  using dict_init_aux [of ks "[]" v] by (simp add: dict_init_def)

lemma map_of_tabulate:
  "distinct (map key bs) \<Longrightarrow> b \<in> set bs \<Longrightarrow> map_of (map (\<lambda>b. (key b, f b)) bs) (key b) = Some (f b)"
  by (induction bs) (auto simp: image_iff)

lemma update_tabulate:
  "distinct (map key bs) \<Longrightarrow> b \<in> set bs \<Longrightarrow>
   AList.update (key b) v (map (\<lambda>b. (key b, f b)) bs) = map (\<lambda>b'. (key b', (f(b := v)) b')) bs"
proof (induction bs)
  case Nil
  then show ?case by simp
next
  case (Cons a bs)
  show ?case
  proof (cases "a = b")
    case True
    with Cons.prems have "b \<notin> set bs" by auto
    then have "map (\<lambda>b'. (key b', (f(b := v)) b')) bs = map (\<lambda>b. (key b, f b)) bs"
      by (intro map_cong) auto
    with True show ?thesis by simp
  next
    case False
    with Cons.prems have b: "b \<in> set bs" and d: "distinct (map key bs)" by auto
    from Cons.prems b have nk: "key a \<noteq> key b" by (auto simp: image_iff)
    from Cons.IH [OF d b] nk False show ?thesis by simp
  qed
qed

subsection \<open>categorize\<close>

lemma find_bin_Some:
  "find_bin bins k = Some b \<Longrightarrow> b \<in> set (bin_pairs bins) \<and> in_bin k b"
  by (auto simp: find_bin_def find_Some_iff)

lemma find_bin_None:
  "find_bin bins k = None \<Longrightarrow> b \<in> set (bin_pairs bins) \<Longrightarrow> \<not> in_bin k b"
  by (cases b) (auto simp: find_bin_def find_None_iff)

lemma bin_items_Cons_other:
  "\<not> in_bin (kudos w) b \<Longrightarrow> bin_items b (w # ws) = bin_items b ws"
  by (simp add: bin_items_def)

lemma bin_items_Cons_same:
  "in_bin (kudos w) b \<Longrightarrow> bin_items b (w # ws) = w # bin_items b ws"
  by (simp add: bin_items_def)

lemma categorize_tabulate:
  assumes inc: "sorted_wrt (<) bins"
  shows "categorize bins ws
           (map (\<lambda>b. (b, f b)) (bin_pairs bins), map (\<lambda>b. (fst b, g b)) (bin_pairs bins))
         = Inr (map (\<lambda>b. (b, f b @ bin_items b ws)) (bin_pairs bins),
                map (\<lambda>b. (fst b, g b + length (bin_items b ws))) (bin_pairs bins))"
proof (induction ws arbitrary: f g)
  case Nil
  show ?case by (simp add: bin_items_def)
next
  case (Cons w ws)
  let ?P = "bin_pairs bins"
  have d1: "distinct (map fst ?P)" using inc by (rule distinct_butlast_bins)
  then have d0: "distinct (map (\<lambda>b. b) ?P)" by (simp add: distinct_map)
  show ?case
  proof (cases "find_bin bins (kudos w)")
    case None
    then have "\<And>b. b \<in> set ?P \<Longrightarrow> bin_items b (w # ws) = bin_items b ws"
      by (simp add: find_bin_None bin_items_Cons_other)
    then have "map (\<lambda>b. (b, f b @ bin_items b (w # ws))) ?P = map (\<lambda>b. (b, f b @ bin_items b ws)) ?P"
      and "map (\<lambda>b. (fst b, g b + length (bin_items b (w # ws)))) ?P
           = map (\<lambda>b. (fst b, g b + length (bin_items b ws))) ?P"
      by simp_all
    with None Cons.IH [of f g] show ?thesis by (simp add: categorize_work_def)
  next
    case (Some b)
    then have b: "b \<in> set ?P" and inb: "in_bin (kudos w) b" by (simp_all add: find_bin_Some)
    have other: "\<And>b'. b' \<in> set ?P \<Longrightarrow> b' \<noteq> b \<Longrightarrow> \<not> in_bin (kudos w) b'"
      using bins_disjoint [OF inc _ b _ inb] by blast
    let ?f = "f(b := f b @ [w])" and ?g = "g(b := g b + 1)"
    have step: "categorize_work bins w (map (\<lambda>b. (b, f b)) ?P, map (\<lambda>b. (fst b, g b)) ?P)
                = Inr (map (\<lambda>b. (b, ?f b)) ?P, map (\<lambda>b. (fst b, ?g b)) ?P)"
      using Some map_of_tabulate [OF d0 b, of f] map_of_tabulate [OF d1 b, of g]
            update_tabulate [OF d0 b, of "f b @ [w]" f] update_tabulate [OF d1 b, of "g b + 1" g]
      by (simp add: categorize_work_def)
    have e1: "map (\<lambda>b. (b, ?f b @ bin_items b ws)) ?P = map (\<lambda>b. (b, f b @ bin_items b (w # ws))) ?P"
      using inb other by (intro map_cong) (auto simp: bin_items_Cons_same bin_items_Cons_other)
    have e2: "map (\<lambda>b. (fst b, ?g b + length (bin_items b ws))) ?P
              = map (\<lambda>b. (fst b, g b + length (bin_items b (w # ws)))) ?P"
      using inb other by (intro map_cong) (auto simp: bin_items_Cons_same bin_items_Cons_other)
    from step Cons.IH [of ?f ?g] e1 e2 show ?thesis by simp
  qed
qed

lemma categorize_page:
  assumes inc: "sorted_wrt (<) bins"
  shows "categorize bins ws (dict_init (bin_pairs bins) [], dict_init (butlast bins) 0)
         = Inr (map (\<lambda>b. (b, bin_items b ws)) (bin_pairs bins),
                map (\<lambda>b. (fst b, length (bin_items b ws))) (bin_pairs bins))"
proof -
  have d1: "distinct (map fst (bin_pairs bins))" using inc by (rule distinct_butlast_bins)
  then have d0: "distinct (bin_pairs bins)" by (simp add: distinct_map)
  have bl: "butlast bins = map fst (bin_pairs bins)"
    by (cases bins) (simp_all add: bin_pairs_def)
  have i0: "dict_init (bin_pairs bins) ([] :: work list) = map (\<lambda>b. (b, [])) (bin_pairs bins)"
    using d0 by (rule dict_init_distinct)
  have i1: "dict_init (butlast bins) (0::nat) = map (\<lambda>b. (fst b, 0)) (bin_pairs bins)"
    using d1 by (simp add: bl dict_init_distinct comp_def)
  show ?thesis
    unfolding i0 i1 using categorize_tabulate [OF inc, of ws "\<lambda>b. []" "\<lambda>b. 0"] by simp
qed

lemma min_count_page:
  "min_count_of (map (\<lambda>b. (fst b, length (bin_items b ws))) (bin_pairs bins)) = page_min bins ws"
  by (simp add: min_count_of_def page_min_def comp_def min_list_Min Let_def)

lemma page_min_le:
  assumes "b \<in> set (bin_pairs bins)" "bin_items b ws \<noteq> []"
  shows "page_min bins ws \<le> length (bin_items b ws)" "0 < page_min bins ws"
proof -
  let ?cs = "filter (\<lambda>c. 0 < c) (map (\<lambda>b. length (bin_items b ws)) (bin_pairs bins))"
  have mem: "length (bin_items b ws) \<in> set ?cs" using assms by auto
  then have ne: "?cs \<noteq> []" by (metis empty_iff empty_set)
  then have pm: "page_min bins ws = Min (set ?cs)" by (simp add: page_min_def Let_def)
  show "page_min bins ws \<le> length (bin_items b ws)" unfolding pm using mem by (intro Min_le) auto
  have nes: "set ?cs \<noteq> {}" using ne by (simp only: set_empty not_False_eq_True)
  have "Min (set ?cs) \<in> set ?cs" by (rule Min_in [OF finite_set nes])
  then show "0 < page_min bins ws" unfolding pm by auto
qed

lemma bin_items_append: "bin_items b (xs @ ys) = bin_items b xs @ bin_items b ys"
  by (simp add: bin_items_def)

lemma bin_items_all:
  "\<forall>w \<in> set r. in_bin (kudos w) b \<Longrightarrow> bin_items b r = r"
  by (simp add: bin_items_def)

lemma bin_items_none:
  "\<forall>w \<in> set r. \<not> in_bin (kudos w) b \<Longrightarrow> bin_items b r = []"
  by (simp add: bin_items_def)

lemma in_bin_items: "w \<in> set (bin_items b ws) \<Longrightarrow> in_bin (kudos w) b"
  by (simp add: bin_items_def)

lemma sample_bins_spec:
  assumes inc: "sorted_wrt (<) bins"
  shows "set bs \<subseteq> set (bin_pairs bins) \<Longrightarrow> distinct bs \<Longrightarrow>
    (\<forall>b \<in> set bs. bin_items b ws \<noteq> [] \<longrightarrow> m \<le> length (bin_items b ws)) \<Longrightarrow>
    \<exists>r s'. sample_bins m (map (\<lambda>b. (b, bin_items b ws)) bs) acc s = (Inr (acc @ r), s') \<and>
      (\<forall>b \<in> set (bin_pairs bins).
          mset (bin_items b r) \<subseteq># mset (bin_items b ws) \<and>
          length (bin_items b r) = (if b \<in> set bs \<and> bin_items b ws \<noteq> [] then m else 0)) \<and>
      (\<forall>w \<in> set r. \<exists>b \<in> set bs. in_bin (kudos w) b)"
proof (induction bs arbitrary: acc s)
  case Nil
  show ?case by (simp add: bin_items_def)
next
  case (Cons b0 bs)
  let ?P = "bin_pairs bins"
  from Cons.prems have b0: "b0 \<in> set ?P" and sub: "set bs \<subseteq> set ?P"
    and nb0: "b0 \<notin> set bs" and dist: "distinct bs"
    and ms: "\<forall>b \<in> set bs. bin_items b ws \<noteq> [] \<longrightarrow> m \<le> length (bin_items b ws)"
    by auto
  obtain bin_start bin_end where b0eq: "b0 = (bin_start, bin_end)" by (cases b0)
  show ?case
  proof (cases "bin_items b0 ws \<noteq> [] \<and> 0 < m")
    case False
    from Cons.IH [OF sub dist ms, of acc s] obtain r s' where
      run: "sample_bins m (map (\<lambda>b. (b, bin_items b ws)) bs) acc s = (Inr (acc @ r), s')"
      and props: "\<forall>b \<in> set ?P. mset (bin_items b r) \<subseteq># mset (bin_items b ws) \<and>
          length (bin_items b r) = (if b \<in> set bs \<and> bin_items b ws \<noteq> [] then m else 0)"
      and mem: "\<forall>w \<in> set r. \<exists>b \<in> set bs. in_bin (kudos w) b"
      by blast
    have "sample_bins m (map (\<lambda>b. (b, bin_items b ws)) (b0 # bs)) acc s = (Inr (acc @ r), s')"
      using False run b0eq by auto
    moreover have "\<forall>b \<in> set ?P. mset (bin_items b r) \<subseteq># mset (bin_items b ws) \<and>
          length (bin_items b r) = (if b \<in> set (b0 # bs) \<and> bin_items b ws \<noteq> [] then m else 0)"
      using props False nb0 by auto
    moreover have "\<forall>w \<in> set r. \<exists>b \<in> set (b0 # bs). in_bin (kudos w) b"
      using mem by auto
    ultimately show ?thesis by blast
  next
    case True
    with Cons.prems have le: "m \<le> length (bin_items b0 ws)" by simp
    from random_sample_ok [OF le, of "rng s"] obtain r0 g where
      rs: "random_sample (bin_items b0 ws) (int m) (rng s) = (Inr r0, g)"
      and len0: "length r0 = m" and sub0: "mset r0 \<subseteq># mset (bin_items b0 ws)"
      by blast
    let ?s1 = "s\<lparr>rng := g,
                  strata_counts :=
                    AList.update bin_start
                      ((case map_of (strata_counts s) bin_start of None \<Rightarrow> 0 | Some c \<Rightarrow> c) + m)
                      (strata_counts s)\<rparr>"
    from Cons.IH [OF sub dist ms, of "acc @ r0" ?s1] obtain r s' where
      run: "sample_bins m (map (\<lambda>b. (b, bin_items b ws)) bs) (acc @ r0) ?s1 = (Inr ((acc @ r0) @ r), s')"
      and props: "\<forall>b \<in> set ?P. mset (bin_items b r) \<subseteq># mset (bin_items b ws) \<and>
          length (bin_items b r) = (if b \<in> set bs \<and> bin_items b ws \<noteq> [] then m else 0)"
      and mem: "\<forall>w \<in> set r. \<exists>b \<in> set bs. in_bin (kudos w) b"
      by blast
    have all0: "\<forall>w \<in> set r0. in_bin (kudos w) b0"
      using sub0 in_bin_items by (metis mset_subset_eqD set_mset_mset)
    have own: "bin_items b0 r0 = r0" using all0 by (rule bin_items_all)
    have others: "bin_items b r0 = []" if "b \<in> set ?P" "b \<noteq> b0" for b
    proof (rule bin_items_none, rule ballI)
      fix w assume "w \<in> set r0"
      with all0 have "in_bin (kudos w) b0" by simp
      with bins_disjoint [OF inc that(1) b0] that(2) show "\<not> in_bin (kudos w) b" by blast
    qed
    have "sample_bins m (map (\<lambda>b. (b, bin_items b ws)) (b0 # bs)) acc s = (Inr (acc @ (r0 @ r)), s')"
      using True rs run b0eq by simp
    moreover have "\<forall>b \<in> set ?P. mset (bin_items b (r0 @ r)) \<subseteq># mset (bin_items b ws) \<and>
          length (bin_items b (r0 @ r)) = (if b \<in> set (b0 # bs) \<and> bin_items b ws \<noteq> [] then m else 0)"
    proof
      fix b assume b: "b \<in> set ?P"
      show "mset (bin_items b (r0 @ r)) \<subseteq># mset (bin_items b ws) \<and>
          length (bin_items b (r0 @ r)) = (if b \<in> set (b0 # bs) \<and> bin_items b ws \<noteq> [] then m else 0)"
      proof (cases "b = b0")
        case beq: True
        from props b0 nb0 have "length (bin_items b0 r) = 0" by simp
        then have "bin_items b0 r = []" by simp
        with beq own sub0 len0 True show ?thesis by (simp add: bin_items_append)
      next
        case bne: False
        from others [OF b bne] props b bne show ?thesis by (simp add: bin_items_append)
      qed
    qed
    moreover have "\<forall>w \<in> set (r0 @ r). \<exists>b \<in> set (b0 # bs). in_bin (kudos w) b"
      using mem all0 by auto
    ultimately show ?thesis by blast
  qed
qed

text \<open>
  Claim C1. For every page and every strictly increasing bin sequence, strata sampling
  succeeds; with \<open>m\<close> the minimum positive per-bin count of the page (\<open>page_min\<close>, 0 when
  every bin is empty), the sample holds exactly \<open>m\<close> items of every non-empty bin and none
  of an empty one, the items of each bin are drawn from that bin's items of the page without
  replacement (as a sub-multiset), and nothing outside the bins is returned.
\<close>

theorem strata_sampling:
  assumes inc: "sorted_wrt (<) bins"
  shows "\<exists>sampled s'.
      apply_sampling wd (Some ''strata'') pct ws n bins s = (Inr sampled, s') \<and>
      (\<forall>b \<in> set (bin_pairs bins).
          length (bin_items b sampled) = (if bin_items b ws = [] then 0 else page_min bins ws) \<and>
          mset (bin_items b sampled) \<subseteq># mset (bin_items b ws)) \<and>
      (\<forall>w \<in> set sampled. \<exists>b \<in> set (bin_pairs bins). in_bin (kudos w) b)"
proof -
  let ?P = "bin_pairs bins" and ?m = "page_min bins ws"
  have d: "distinct ?P" using distinct_butlast_bins [OF inc] by (simp add: distinct_map)
  have le: "\<forall>b \<in> set ?P. bin_items b ws \<noteq> [] \<longrightarrow> ?m \<le> length (bin_items b ws)"
    using page_min_le(1) by blast
  from sample_bins_spec [OF inc subset_refl d le, of "[]" s] obtain r s' where
    run: "sample_bins ?m (map (\<lambda>b. (b, bin_items b ws)) ?P) [] s = (Inr r, s')"
    and props: "\<forall>b \<in> set ?P. mset (bin_items b r) \<subseteq># mset (bin_items b ws) \<and>
          length (bin_items b r) = (if b \<in> set ?P \<and> bin_items b ws \<noteq> [] then ?m else 0)"
    and mem: "\<forall>w \<in> set r. \<exists>b \<in> set ?P. in_bin (kudos w) b"
    by auto
  have "apply_sampling wd (Some ''strata'') pct ws n bins s = (Inr r, s')"
    using run by (simp add: apply_sampling_def categorize_page [OF inc] min_count_page)
  moreover have "\<forall>b \<in> set ?P.
          length (bin_items b r) = (if bin_items b ws = [] then 0 else ?m) \<and>
          mset (bin_items b r) \<subseteq># mset (bin_items b ws)"
    using props by auto
  ultimately show ?thesis using mem by blast
qed

theorem strata_sampling_witness:
  "sorted_wrt (<) [0, 100, 500, 1000 :: int] \<and>
   length (bin_items (0, 100) page_5_2_0) = 5 \<and>
   length (bin_items (100, 500) page_5_2_0) = 2 \<and>
   length (bin_items (500, 1000) page_5_2_0) = 0 \<and>
   (\<exists>sampled s'.
      apply_sampling offline (Some ''strata'') 50 page_5_2_0 2 [0, 100, 500, 1000] (fresh [3, 1, 4, 1]) =
        (Inr sampled, s') \<and>
      length (bin_items (0, 100) sampled) = 2 \<and>
      length (bin_items (100, 500) sampled) = 2 \<and>
      length (bin_items (500, 1000) sampled) = 0)"
proof -
  have inc: "sorted_wrt (<) [0, 100, 500, 1000 :: int]" by simp
  have pairs: "bin_pairs [0, 100, 500, 1000] = [(0, 100), (100, 500), (500, 1000)]"
    by (simp add: bin_pairs_def)
  have n0: "length (bin_items (0, 100) page_5_2_0) = 5"
    and n1: "length (bin_items (100, 500) page_5_2_0) = 2"
    and n2: "length (bin_items (500, 1000) page_5_2_0) = 0"
    by (simp_all add: bin_items_def page_5_2_0_def item_def in_bin_def)
  have m: "page_min [0, 100, 500, 1000] page_5_2_0 = 2"
    by (simp add: page_min_def pairs n0 n1 n2)
  from strata_sampling [OF inc, of offline 50 page_5_2_0 2 "fresh [3, 1, 4, 1]"]
  obtain sampled s' where
    run: "apply_sampling offline (Some ''strata'') 50 page_5_2_0 2 [0, 100, 500, 1000] (fresh [3, 1, 4, 1]) =
        (Inr sampled, s')"
    and each: "\<forall>b \<in> set (bin_pairs [0, 100, 500, 1000]).
          length (bin_items b sampled) =
            (if bin_items b page_5_2_0 = [] then 0 else page_min [0, 100, 500, 1000] page_5_2_0) \<and>
          mset (bin_items b sampled) \<subseteq># mset (bin_items b page_5_2_0)"
    by blast
  from each have "length (bin_items (0, 100) sampled) = 2"
    and "length (bin_items (100, 500) sampled) = 2"
    and "length (bin_items (500, 1000) sampled) = 0"
    using n0 n1 n2 by (auto simp: pairs m)
  with inc n0 n1 n2 run show ?thesis by blast
qed

section \<open>Systematic sampling\<close>

lemma randbelow_onto: "r < n \<Longrightarrow> fst (randbelow n (r # g)) = r"
  by (simp add: randbelow_def)

text \<open>
  Claim C9. For every list of items and every stride \<open>n \<ge> 1\<close>, systematic sampling draws a
  start offset \<open>r\<close> in \<open>[0, n)\<close> from the random source (every such offset is drawn by some
  source) and returns exactly the items at the indices \<open>r, r + n, r + 2n, \<dots>\<close> below the
  length, in their original order.
\<close>

theorem systematic_sampling:
  assumes "1 \<le> n"
  shows "apply_sampling wd (Some ''systematic'') pct ws n bins s =
           (Inr (every_nth_from (fst (randbelow (nat n) (rng s))) (nat n) ws),
            s\<lparr>rng := snd (randbelow (nat n) (rng s))\<rparr>) \<and>
         fst (randbelow (nat n) (rng s)) < nat n \<and>
         (\<forall>r < nat n. \<exists>g. fst (randbelow (nat n) g) = r)"
proof -
  from assms have pos: "0 < nat n" by simp
  obtain r g' where rb: "randbelow (nat n) (rng s) = (r, g')" by (cases "randbelow (nat n) (rng s)")
  from assms have "nat (n - 1 - 0 + 1) = nat n" by simp
  with assms rb have "apply_sampling wd (Some ''systematic'') pct ws n bins s =
      (Inr (slice_from r (nat n) ws), s\<lparr>rng := g'\<rparr>)"
    by (simp add: apply_sampling_def random_randint_def)
  moreover have "slice_from r (nat n) ws = every_nth_from r (nat n) ws"
    using pos by (rule slice_from_every_nth)
  moreover have "fst (randbelow (nat n) (rng s)) < nat n"
    using pos by (rule randbelow_less)
  moreover have "\<forall>r < nat n. \<exists>g. fst (randbelow (nat n) g) = r"
    using randbelow_onto by blast
  ultimately show ?thesis using rb by simp
qed

theorem systematic_sampling_witness:
  "fst (apply_sampling offline (Some ''systematic'') 50 page_5_2_0 3 [] (fresh [0]))
     = Inr [item ''1'' 5, item ''4'' 99, item ''7'' 50] \<and>
   fst (apply_sampling offline (Some ''systematic'') 50 page_5_2_0 3 [] (fresh [1]))
     = Inr [item ''2'' 150, item ''5'' 499] \<and>
   fst (apply_sampling offline (Some ''systematic'') 50 page_5_2_0 3 [] (fresh [2]))
     = Inr [item ''3'' 20, item ''6'' 0]"
proof -
  have three: "(1::int) \<le> 3" by simp
  have idx: "[0..<7] = [0, 1, 2, 3, 4, 5, 6]" by (simp add: upt_rec)
  show ?thesis
    using systematic_sampling [OF three, of offline 50 page_5_2_0 "[]" "fresh [0]"]
      systematic_sampling [OF three, of offline 50 page_5_2_0 "[]" "fresh [1]"]
      systematic_sampling [OF three, of offline 50 page_5_2_0 "[]" "fresh [2]"]
    by (simp add: every_nth_from_def randbelow_def fresh_def page_5_2_0_def idx)
qed

section \<open>The page range of a max-count run\<close>

lemma effective_max:
  "truthy (max_work_count cfg) \<Longrightarrow> effective cfg = cfg\<lparr>start_page := 1, end_page := None\<rparr>"
  by (simp add: effective_def)

text \<open>
  Claim C10. Whenever \<open>max_work_count\<close> is set (to a value Python takes as true), the
  settings the crawl runs with have start page 1 and no end page; the loop starts at the
  persisted last-visited page when there is one (and it is not 0) and at page 1 otherwise; and
  the run is the same whatever \<open>start_page\<close> and \<open>end_page\<close> the configuration gives.
\<close>

theorem max_count_ignores_page_range:
  assumes "truthy (max_work_count cfg)"
  shows "start_page (effective cfg) = 1 \<and> end_page (effective cfg) = None \<and>
         main fuel cfg wd s0 =
           cleanup (page_loop fuel (effective cfg) wd (resume_page 1 (last_visited_page_txt s0)) 0
                      (prepare (effective cfg) (boot (effective cfg) s0))) \<and>
         main fuel (cfg\<lparr>start_page := a, end_page := e\<rparr>) wd s0 = main fuel cfg wd s0"
proof -
  have e: "effective cfg = cfg\<lparr>start_page := 1, end_page := None\<rparr>"
    using assms by (rule effective_max)
  have "truthy (max_work_count (cfg\<lparr>start_page := a, end_page := e\<rparr>))" using assms by simp
  then have e': "effective (cfg\<lparr>start_page := a, end_page := e\<rparr>) = effective cfg"
    by (simp add: effective_max e)
  have "start_page (effective cfg) = 1" "end_page (effective cfg) = None" by (simp_all add: e)
  moreover from this have "main fuel cfg wd s0 =
           cleanup (page_loop fuel (effective cfg) wd (resume_page 1 (last_visited_page_txt s0)) 0
                      (prepare (effective cfg) (boot (effective cfg) s0)))"
    by (simp add: main_def scrape_works_def)
  moreover have "main fuel (cfg\<lparr>start_page := a, end_page := e\<rparr>) wd s0 = main fuel cfg wd s0"
    by (simp add: main_def e')
  ultimately show ?thesis by simp
qed

theorem max_count_ignores_page_range_witness:
  "truthy (max_work_count (settings\<lparr>max_work_count := Some 1\<rparr>)) \<and>
   main 5 (settings\<lparr>max_work_count := Some 1, start_page := 7, end_page := Some 9\<rparr>)
     (serving [ok_page [item ''1'' 5, item ''2'' 7]] (ok_page [])) (fresh []) =
   main 5 (settings\<lparr>max_work_count := Some 1\<rparr>)
     (serving [ok_page [item ''1'' 5, item ''2'' 7]] (ok_page [])) (fresh []) \<and>
   fst (main 5 (settings\<lparr>max_work_count := Some 1\<rparr>)
     (serving [ok_page [item ''1'' 5, item ''2'' 7]] (ok_page [])) (fresh [])) = Returned 1 1 True"
proof -
  have t: "truthy (max_work_count (settings\<lparr>max_work_count := Some 1\<rparr>))"
    by (simp add: truthy_def)
  have r: "fst (main 5 (settings\<lparr>max_work_count := Some 1\<rparr>)
     (serving [ok_page [item ''1'' 5, item ''2'' 7]] (ok_page [])) (fresh [])) = Returned 1 1 True"
    by code_simp
  from max_count_ignores_page_range [OF t, where fuel = 5 and a = 7 and e = "Some 9"
      and wd = "serving [ok_page [item ''1'' 5, item ''2'' 7]] (ok_page [])" and ?s0.0 = "fresh []"] t r
  show ?thesis by simp
qed

section \<open>What each operation changes\<close>

lemma fetch_listing_frame:
  "(snd (fetch_listing n wd page s))\<lparr>fetches := c\<rparr> = s\<lparr>fetches := c\<rparr>"
proof (induction n arbitrary: s)
  case 0
  show ?case by simp
next
  case (Suc n)
  from Suc.IH [of "s\<lparr>fetches := Suc (fetches s)\<rparr>"] show ?case
    by (auto simp: requests_get_def split: response.splits outcome.splits bool.splits)
qed

lemma fetch_listing_fields:
  "strata_counts (snd (fetch_listing n wd page s)) = strata_counts s"
  "seen_work_ids (snd (fetch_listing n wd page s)) = seen_work_ids s"
  "csv_file (snd (fetch_listing n wd page s)) = csv_file s"
  "last_visited_page_txt (snd (fetch_listing n wd page s)) = last_visited_page_txt s"
  "seen_work_ids_txt (snd (fetch_listing n wd page s)) = seen_work_ids_txt s"
  "strata_counts_json (snd (fetch_listing n wd page s)) = strata_counts_json s"
  "rng (snd (fetch_listing n wd page s)) = rng s"
  "trace (snd (fetch_listing n wd page s)) = trace s"
proof -
  let ?s' = "snd (fetch_listing n wd page s)"
  have e: "?s'\<lparr>fetches := 0\<rparr> = s\<lparr>fetches := 0\<rparr>" by (rule fetch_listing_frame [where c = 0])
  show "strata_counts ?s' = strata_counts s" using arg_cong [OF e, of strata_counts] by simp
  show "seen_work_ids ?s' = seen_work_ids s" using arg_cong [OF e, of seen_work_ids] by simp
  show "csv_file ?s' = csv_file s" using arg_cong [OF e, of csv_file] by simp
  show "last_visited_page_txt ?s' = last_visited_page_txt s" using arg_cong [OF e, of last_visited_page_txt] by simp
  show "seen_work_ids_txt ?s' = seen_work_ids_txt s" using arg_cong [OF e, of seen_work_ids_txt] by simp
  show "strata_counts_json ?s' = strata_counts_json s" using arg_cong [OF e, of strata_counts_json] by simp
  show "rng ?s' = rng s" using arg_cong [OF e, of rng] by simp
  show "trace ?s' = trace s" using arg_cong [OF e, of trace] by simp
qed

lemma sample_bins_frame:
  "(snd (sample_bins m d acc s))\<lparr>rng := g0, strata_counts := c0\<rparr> = s\<lparr>rng := g0, strata_counts := c0\<rparr>"
proof (induction m d acc s rule: sample_bins.induct)
  case (1 min_count sampled s)
  show ?case by simp
next
  case (2 min_count bin_start bin_end work_bin rest sampled s)
  show ?case
  proof (cases "0 < length work_bin \<and> 0 < min_count")
    case False
    with "2.IH"(2) show ?thesis by auto
  next
    case True
    obtain r g where rs: "random_sample work_bin (int min_count) (rng s) = (r, g)"
      by (cases "random_sample work_bin (int min_count) (rng s)")
    show ?thesis
    proof (cases r)
      case (Inl e)
      with True rs show ?thesis by simp
    next
      case (Inr x)
      from "2.IH"(1) [OF True rs [symmetric] Inr] rs Inr True
      show ?thesis by simp
    qed
  qed
qed

lemma apply_sampling_frame:
  "(snd (apply_sampling wd st pct ws n bins s))\<lparr>rng := g0, strata_counts := c0\<rparr>
     = s\<lparr>rng := g0, strata_counts := c0\<rparr>"
proof (cases "st = Some ''strata''")
  case True
  then show ?thesis
    using sample_bins_frame by (auto simp: apply_sampling_def split: sum.splits)
next
  case False
  then show ?thesis
    by (auto simp: apply_sampling_def split: prod.splits sum.splits)
qed

lemma apply_sampling_fields:
  "seen_work_ids (snd (apply_sampling wd st pct ws n bins s)) = seen_work_ids s"
  "csv_file (snd (apply_sampling wd st pct ws n bins s)) = csv_file s"
  "last_visited_page_txt (snd (apply_sampling wd st pct ws n bins s)) = last_visited_page_txt s"
  "seen_work_ids_txt (snd (apply_sampling wd st pct ws n bins s)) = seen_work_ids_txt s"
  "strata_counts_json (snd (apply_sampling wd st pct ws n bins s)) = strata_counts_json s"
  "fetches (snd (apply_sampling wd st pct ws n bins s)) = fetches s"
  "trace (snd (apply_sampling wd st pct ws n bins s)) = trace s"
proof -
  let ?s' = "snd (apply_sampling wd st pct ws n bins s)"
  have e: "?s'\<lparr>rng := [], strata_counts := []\<rparr> = s\<lparr>rng := [], strata_counts := []\<rparr>" by (rule apply_sampling_frame [where ?g0.0 = "[]" and ?c0.0 = "[]"])
  show "seen_work_ids ?s' = seen_work_ids s" using arg_cong [OF e, of seen_work_ids] by simp
  show "csv_file ?s' = csv_file s" using arg_cong [OF e, of csv_file] by simp
  show "last_visited_page_txt ?s' = last_visited_page_txt s" using arg_cong [OF e, of last_visited_page_txt] by simp
  show "seen_work_ids_txt ?s' = seen_work_ids_txt s" using arg_cong [OF e, of seen_work_ids_txt] by simp
  show "strata_counts_json ?s' = strata_counts_json s" using arg_cong [OF e, of strata_counts_json] by simp
  show "fetches ?s' = fetches s" using arg_cong [OF e, of fetches] by simp
  show "trace ?s' = trace s" using arg_cong [OF e, of trace] by simp
qed

lemma record_work_fields:
  "last_visited_page_txt (snd (record_work bins w t d s)) = last_visited_page_txt s"
  "fetches (snd (record_work bins w t d s)) = fetches s"
  "rng (snd (record_work bins w t d s)) = rng s"
  by (auto simp: record_work_def writerow_def Let_def split: option.splits)

lemma fetch_published_frame:
  "snd (fetch_published wd page s) = s\<lparr>fetches := Suc (fetches s)\<rparr>"
  by (auto simp: fetch_published_def requests_get_def handle_rate_limit_def split: response.splits)

lemma scrape_single_work_fields:
  "last_visited_page_txt (snd (scrape_single_work wd bins page w s)) = last_visited_page_txt s"
  "rng (snd (scrape_single_work wd bins page w s)) = rng s"
proof -
  have "last_visited_page_txt (snd (scrape_single_work wd bins page w s)) = last_visited_page_txt s
      \<and> rng (snd (scrape_single_work wd bins page w s)) = rng s"
  proof (cases "title w")
    case None
    then show ?thesis by (simp add: scrape_single_work_def)
  next
    case (Some t)
    show ?thesis
    proof (cases "work_id w \<in> seen_work_ids s")
      case True
      with Some show ?thesis by (simp add: scrape_single_work_def)
    next
      case False
      obtain r s1 where fp: "fetch_published wd page s = (r, s1)" by (cases "fetch_published wd page s")
      with fetch_published_frame [of wd page s] have s1: "s1 = s\<lparr>fetches := Suc (fetches s)\<rparr>" by simp
      show ?thesis using Some False fp s1
        by (cases r) (simp_all add: scrape_single_work_def record_work_fields)
    qed
  qed
  then show "last_visited_page_txt (snd (scrape_single_work wd bins page w s)) = last_visited_page_txt s"
    and "rng (snd (scrape_single_work wd bins page w s)) = rng s" by simp_all
qed

lemma scrape_page_fields:
  "last_visited_page_txt (snd (scrape_page cfg wd page ws wc s)) = last_visited_page_txt s \<and>
   rng (snd (scrape_page cfg wd page ws wc s)) = rng s"
proof (induction ws arbitrary: wc s)
  case Nil
  show ?case by simp
next
  case (Cons w ws)
  show ?case
  proof (cases "work_id w \<in> seen_work_ids s")
    case True
    with Cons.IH show ?thesis by simp
  next
    case False
    obtain r s1 where one: "scrape_single_work wd (kudos_bins cfg) page w s = (r, s1)"
      by (cases "scrape_single_work wd (kudos_bins cfg) page w s")
    with scrape_single_work_fields [of wd "kudos_bins cfg" page w s]
    have s1: "last_visited_page_txt s1 = last_visited_page_txt s" "rng s1 = rng s" by simp_all
    show ?thesis
    proof (cases r)
      case (Ok u)
      with False one s1 Cons.IH [of "Suc wc" s1] show ?thesis by simp
    next
      case (Stop x)
      with False one s1 show ?thesis by simp
    qed
  qed
qed

lemma page_loop_last_visited:
  "last_visited_page_txt (snd (page_loop fuel cfg wd page wc s))
     = expected_last_visited page (last_visited_page_txt s) (fst (page_loop fuel cfg wd page wc s))
   \<and> page \<le> run_page (fst (page_loop fuel cfg wd page wc s))"
proof (induction fuel arbitrary: page wc s)
  case 0
  show ?case by (simp add: expected_last_visited_def behind_def run_page_def)
next
  case (Suc fuel)
  show ?case
  proof (cases "past_end (end_page cfg) page")
    case True
    then show ?thesis by (simp add: expected_last_visited_def behind_def run_page_def)
  next
    case False
    obtain r1 s1 where f: "fetch_listing max_retries wd page s = (r1, s1)"
      by (cases "fetch_listing max_retries wd page s")
    with fetch_listing_fields(4) [of max_retries wd page s]
    have lv1: "last_visited_page_txt s1 = last_visited_page_txt s" by simp
    show ?thesis
    proof (cases r1)
      case (Stop x)
      with False f lv1 show ?thesis by (simp add: expected_last_visited_def behind_def run_page_def)
    next
      case (Ok soup)
      obtain r2 s2 where a: "apply_sampling wd (sampling_strategy cfg) (sampling_percentage cfg)
          (works soup) (sampling_n cfg) (kudos_bins cfg) s1 = (r2, s2)"
        by (cases "apply_sampling wd (sampling_strategy cfg) (sampling_percentage cfg)
          (works soup) (sampling_n cfg) (kudos_bins cfg) s1")
      with apply_sampling_fields(3) [of wd "sampling_strategy cfg" "sampling_percentage cfg"
          "works soup" "sampling_n cfg" "kudos_bins cfg" s1] lv1
      have lv2: "last_visited_page_txt s2 = last_visited_page_txt s" by simp
      show ?thesis
      proof (cases r2)
        case (Inl e)
        with False f Ok a lv2 show ?thesis
          by (simp add: expected_last_visited_def behind_def run_page_def)
      next
        case (Inr sampled)
        let ?s2 = "s2\<lparr>last_visited_page_txt := Some page\<rparr>"
        obtain r3 s3 where p: "scrape_page cfg wd page sampled wc ?s2 = (r3, s3)"
          by (cases "scrape_page cfg wd page sampled wc ?s2")
        with scrape_page_fields [of cfg wd page sampled wc ?s2]
        have lv3: "last_visited_page_txt s3 = Some page" by simp
        show ?thesis
        proof (cases r3)
          case (Stop x)
          with False f Ok a Inr p lv3 show ?thesis
            by (simp add: expected_last_visited_def run_page_def)
        next
          case ok3: (Ok res)
          obtain wc' sb where res: "res = (wc', sb)" by (cases res)
          show ?thesis
          proof (cases sb)
            case True
            with False f Ok a Inr p lv3 ok3 res show ?thesis
              by (simp add: expected_last_visited_def run_page_def)
          next
            case nb: False
            let ?r = "fst (page_loop fuel cfg wd (page + 1) wc' s3)"
            from Suc.IH [of "page + 1" wc' s3] lv3
            have ih: "last_visited_page_txt (snd (page_loop fuel cfg wd (page + 1) wc' s3))
                = expected_last_visited (page + 1) (Some page) ?r"
              and le: "page + 1 \<le> run_page ?r" by simp_all
            have "expected_last_visited (page + 1) (Some page) ?r
                = expected_last_visited page (last_visited_page_txt s) ?r"
              using le by (cases ?r) (auto simp: expected_last_visited_def behind_def run_page_def)
            with ih le False f Ok a Inr p ok3 res nb show ?thesis by simp
          qed
        qed
      qed
    qed
  qed
qed

lemma prepare_fields:
  "last_visited_page_txt (prepare cfg s) = last_visited_page_txt s"
  "seen_work_ids_txt (prepare cfg s) = seen_work_ids_txt s"
  "strata_counts_json (prepare cfg s) = strata_counts_json s"
  "fetches (prepare cfg s) = fetches s"
  "rng (prepare cfg s) = rng s"
  "trace (prepare cfg s) = trace s"
  by (auto simp: prepare_def open_csv_def writerow_def Let_def split: option.splits fmode.splits)

lemma boot_fields:
  "last_visited_page_txt (boot cfg s) = last_visited_page_txt s"
  "seen_work_ids_txt (boot cfg s) = seen_work_ids_txt s"
  "strata_counts_json (boot cfg s) = strata_counts_json s"
  "csv_file (boot cfg s) = csv_file s"
  "fetches (boot cfg s) = fetches s"
  "rng (boot cfg s) = rng s"
  "trace (boot cfg s) = trace s"
  by (simp_all add: boot_def)

section \<open>The persisted page\<close>

text \<open>
  Claim C6, as the code has it. \<^verbatim>\<open>last_visited_page.txt\<close> is written when a page has been
  fetched and sampled and is not rewritten when the controller advances. So after a stop in
  the middle of page \<open>p\<close> it holds \<open>p\<close>; at the head of the loop for page \<open>p\<close>, and after a
  halt while page \<open>p\<close> is fetched or sampled, it holds \<open>p - 1\<close>, the page that was just fully
  processed (or what the run found on disk, when \<open>p\<close> is the run's first page); and when the
  crawl returns, \<^verbatim>\<open>main\<close> removes the file.
\<close>

theorem persisted_page:
  "last_visited_page_txt (snd (main fuel cfg wd s0)) =
     persisted_after (resume_page (start_page (effective cfg)) (last_visited_page_txt s0))
       (last_visited_page_txt s0) (fst (main fuel cfg wd s0)) \<and>
   resume_page (start_page (effective cfg)) (last_visited_page_txt s0)
     \<le> run_page (fst (main fuel cfg wd s0))"
proof -
  let ?first = "resume_page (start_page (effective cfg)) (last_visited_page_txt s0)"
  let ?s = "prepare (effective cfg) (boot (effective cfg) s0)"
  let ?c = "page_loop fuel (effective cfg) wd ?first 0 ?s"
  have m: "main fuel cfg wd s0 = cleanup ?c" by (simp add: main_def scrape_works_def)
  have lv: "last_visited_page_txt ?s = last_visited_page_txt s0"
    by (simp add: prepare_fields boot_fields)
  from page_loop_last_visited [of fuel "effective cfg" wd ?first 0 ?s] lv
  have a: "last_visited_page_txt (snd ?c) = expected_last_visited ?first (last_visited_page_txt s0) (fst ?c)"
    and b: "?first \<le> run_page (fst ?c)" by simp_all
  obtain r s' where c: "?c = (r, s')" by (cases ?c)
  show ?thesis
    using a b c
    by (cases r)
       (simp_all add: m cleanup_def remove_state_files_def persisted_after_def
          expected_last_visited_def run_page_def)
qed

theorem persisted_page_counterexample:
  "fst (main 5 settings (serving [ok_page [item ''1'' 5], ok_page [], limited] (ok_page [])) (fresh []))
     = Halted 2 Fetching (RateLimited 2) \<and>
   csv_file (snd (main 5 settings (serving [ok_page [item ''1'' 5], ok_page [], limited] (ok_page []))
       (fresh [])))
     = Some [Header, Row (Some ''1'') ''Work 1'' ''2020.01.02'' 5] \<and>
   last_visited_page_txt (snd (main 5 settings
       (serving [ok_page [item ''1'' 5], ok_page [], limited] (ok_page [])) (fresh [])))
     = Some 1"
  by code_simp

section \<open>The state files at the end of a run\<close>

lemma files_kept_same:
  "last_visited_page_txt s' = last_visited_page_txt s \<Longrightarrow>
   seen_work_ids_txt s' = seen_work_ids_txt s \<Longrightarrow>
   strata_counts_json s' = strata_counts_json s \<Longrightarrow> files_kept s s'"
  unfolding files_kept_def
  by (cases "last_visited_page_txt s"; cases "seen_work_ids_txt s"; cases "strata_counts_json s") simp_all

lemma files_kept_refl: "files_kept s s"
  by (rule files_kept_same) simp_all

lemma files_kept_trans: "files_kept s s1 \<Longrightarrow> files_kept s1 s2 \<Longrightarrow> files_kept s s2"
  by (auto simp: files_kept_def)

lemma fetch_listing_kept: "files_kept s (snd (fetch_listing n wd page s))"
  by (rule files_kept_same) (simp_all add: fetch_listing_fields)

lemma apply_sampling_kept: "files_kept s (snd (apply_sampling wd st pct ws n bins s))"
  by (rule files_kept_same) (simp_all add: apply_sampling_fields)

lemma record_work_kept: "files_kept s (snd (record_work bins w t d s))"
  by (auto simp: files_kept_def record_work_def writerow_def Let_def split: option.splits)

lemma scrape_single_work_kept: "files_kept s (snd (scrape_single_work wd bins page w s))"
proof -
  have fp: "files_kept s (snd (fetch_published wd page s))"
    by (rule files_kept_same) (simp_all add: fetch_published_frame)
  show ?thesis
    using fp record_work_kept files_kept_trans files_kept_refl
    by (auto simp: scrape_single_work_def split: option.splits prod.splits outcome.splits)
qed

lemma scrape_page_kept: "files_kept s (snd (scrape_page cfg wd page ws wc s))"
proof (induction ws arbitrary: wc s)
  case Nil
  show ?case by (simp add: files_kept_refl)
next
  case (Cons w ws)
  show ?case
  proof (cases "work_id w \<in> seen_work_ids s")
    case True
    with Cons.IH show ?thesis by simp
  next
    case False
    obtain r s1 where one: "scrape_single_work wd (kudos_bins cfg) page w s = (r, s1)"
      by (cases "scrape_single_work wd (kudos_bins cfg) page w s")
    with scrape_single_work_kept [of s wd "kudos_bins cfg" page w] have k1: "files_kept s s1" by simp
    show ?thesis
    proof (cases r)
      case (Ok u)
      with False one k1 Cons.IH [of s1 "Suc wc"] show ?thesis
        by (auto intro: files_kept_trans)
    next
      case (Stop x)
      with False one k1 show ?thesis by simp
    qed
  qed
qed

lemma scrape_page_break:
  "scrape_page cfg wd page ws wc s = (Ok (wc', True), s') \<Longrightarrow> max_reached (max_work_count cfg) wc'"
proof (induction ws arbitrary: wc s)
  case Nil
  then show ?case by simp
next
  case (Cons w ws)
  show ?case
  proof (cases "work_id w \<in> seen_work_ids s")
    case True
    with Cons show ?thesis by simp
  next
    case False
    obtain r s1 where one: "scrape_single_work wd (kudos_bins cfg) page w s = (r, s1)"
      by (cases "scrape_single_work wd (kudos_bins cfg) page w s")
    show ?thesis
    proof (cases r)
      case (Ok u)
      with False one Cons.prems Cons.IH [of "Suc wc" s1] show ?thesis
        by (auto split: if_splits)
    next
      case (Stop x)
      with False one Cons.prems show ?thesis by simp
    qed
  qed
qed

lemma page_loop_returns:
  "return_cause cfg (fst (page_loop fuel cfg wd page wc s)) \<and>
   files_kept s (snd (page_loop fuel cfg wd page wc s))"
proof (induction fuel arbitrary: page wc s)
  case 0
  show ?case by (simp add: return_cause_def files_kept_refl)
next
  case (Suc fuel)
  show ?case
  proof (cases "past_end (end_page cfg) page")
    case True
    then show ?thesis by (simp add: return_cause_def files_kept_refl)
  next
    case False
    obtain r1 s1 where f: "fetch_listing max_retries wd page s = (r1, s1)"
      by (cases "fetch_listing max_retries wd page s")
    with fetch_listing_kept [of s max_retries wd page] have k1: "files_kept s s1" by simp
    show ?thesis
    proof (cases r1)
      case (Stop x)
      with False f k1 show ?thesis by (simp add: return_cause_def)
    next
      case (Ok soup)
      obtain r2 s2 where a: "apply_sampling wd (sampling_strategy cfg) (sampling_percentage cfg)
          (works soup) (sampling_n cfg) (kudos_bins cfg) s1 = (r2, s2)"
        by (cases "apply_sampling wd (sampling_strategy cfg) (sampling_percentage cfg)
          (works soup) (sampling_n cfg) (kudos_bins cfg) s1")
      with apply_sampling_kept [of s1 wd "sampling_strategy cfg" "sampling_percentage cfg"
          "works soup" "sampling_n cfg" "kudos_bins cfg"] k1
      have k2: "files_kept s s2" by (auto intro: files_kept_trans)
      show ?thesis
      proof (cases r2)
        case (Inl e)
        with False f Ok a k2 show ?thesis by (simp add: return_cause_def)
      next
        case (Inr sampled)
        let ?s2 = "s2\<lparr>last_visited_page_txt := Some page\<rparr>"
        have k2': "files_kept s ?s2" using k2 unfolding files_kept_def by simp
        obtain r3 s3 where p: "scrape_page cfg wd page sampled wc ?s2 = (r3, s3)"
          by (cases "scrape_page cfg wd page sampled wc ?s2")
        with scrape_page_kept [of ?s2 cfg wd page sampled wc] k2'
        have k3: "files_kept s s3" by (auto intro: files_kept_trans)
        show ?thesis
        proof (cases r3)
          case (Stop x)
          with False f Ok a Inr p k3 show ?thesis by (simp add: return_cause_def)
        next
          case ok3: (Ok res)
          obtain wc' sb where res: "res = (wc', sb)" by (cases res)
          show ?thesis
          proof (cases sb)
            case True
            with p ok3 res have "max_reached (max_work_count cfg) wc'"
              using scrape_page_break by simp
            with True False f Ok a Inr p k3 ok3 res show ?thesis by (simp add: return_cause_def)
          next
            case nb: False
            from Suc.IH [of "page + 1" wc' s3] k3
            have "return_cause cfg (fst (page_loop fuel cfg wd (page + 1) wc' s3))"
              and "files_kept s (snd (page_loop fuel cfg wd (page + 1) wc' s3))"
              by (auto intro: files_kept_trans)
            with False f Ok a Inr p ok3 res nb show ?thesis by simp
          qed
        qed
      qed
    qed
  qed
qed




text \<open>
  Claim C2, as the code has it. When the crawl returns, which it does when
  \<open>max_work_count\<close> is reached (\<open>should_break\<close>) or when the end page is passed,
  \<^verbatim>\<open>main\<close> removes the three state files. When the process halts (rate-limit marker,
  retries exhausted, uncaught exception), \<^verbatim>\<open>main\<close> removes nothing: the final state is
  the state at the halt, and no state file that existed at the start is missing.
\<close>

theorem state_files_at_exit:
  "(case main fuel cfg wd s0 of
      (Returned p work_count should_break, s') \<Rightarrow>
        last_visited_page_txt s' = None \<and> seen_work_ids_txt s' = None \<and>
        strata_counts_json s' = None \<and>
        (if should_break then max_reached (max_work_count cfg) work_count
         else past_end (end_page (effective cfg)) p)
    | (Halted p ph reason, s') \<Rightarrow>
        (Halted p ph reason, s') =
          scrape_works fuel (effective cfg) (last_visited_page_txt s0) wd (boot (effective cfg) s0) \<and>
        files_kept s0 s'
    | (Unfinished p work_count, s') \<Rightarrow> files_kept s0 s')"
proof -
  let ?first = "resume_page (start_page (effective cfg)) (last_visited_page_txt s0)"
  let ?s = "prepare (effective cfg) (boot (effective cfg) s0)"
  let ?c = "page_loop fuel (effective cfg) wd ?first 0 ?s"
  have m: "main fuel cfg wd s0 = cleanup ?c" by (simp add: main_def scrape_works_def)
  have mc: "max_work_count (effective cfg) = max_work_count cfg" by (simp add: effective_def)
  from page_loop_returns [of "effective cfg" fuel wd ?first 0 ?s]
  have rc: "return_cause (effective cfg) (fst ?c)" and fk: "files_kept ?s (snd ?c)" by simp_all
  have k0: "files_kept s0 ?s" by (rule files_kept_same) (simp_all add: prepare_fields boot_fields)
  from k0 fk have fk0: "files_kept s0 (snd ?c)" by (rule files_kept_trans)
  obtain r s' where c: "?c = (r, s')" by (cases ?c)
  show ?thesis
  proof (cases r)
    case (Returned p work_count should_break)
    with rc c mc show ?thesis
      by (auto simp: m cleanup_def return_cause_def remove_state_files_def split: if_splits)
  next
    case (Halted p ph reason)
    with fk0 c show ?thesis by (simp add: m cleanup_def scrape_works_def)
  next
    case (Unfinished p work_count)
    with fk0 c show ?thesis by (simp add: m cleanup_def)
  qed
qed

theorem state_files_at_exit_witness:
  "fst (main 5 settings (serving [limited] (ok_page [])) resumed) = Halted 1 Fetching (RateLimited 1) \<and>
   last_visited_page_txt (snd (main 5 settings (serving [limited] (ok_page [])) resumed)) \<noteq> None \<and>
   seen_work_ids_txt (snd (main 5 settings (serving [limited] (ok_page [])) resumed)) \<noteq> None \<and>
   strata_counts_json (snd (main 5 settings (serving [limited] (ok_page [])) resumed)) \<noteq> None"
proof -
  let ?m = "main 5 settings (serving [limited] (ok_page [])) resumed"
  have r: "fst ?m = Halted 1 Fetching (RateLimited 1)" by code_simp
  obtain s' where m: "?m = (Halted 1 Fetching (RateLimited 1), s')"
    using r by (cases ?m) simp
  from state_files_at_exit [where fuel = 5 and cfg = settings
      and wd = "serving [limited] (ok_page [])" and ?s0.0 = resumed] m
  have "files_kept resumed s'" by simp
  then have "last_visited_page_txt s' \<noteq> None \<and> seen_work_ids_txt s' \<noteq> None \<and>
      strata_counts_json s' \<noteq> None"
    by (simp add: files_kept_def resumed_def fresh_def)
  with r m show ?thesis by simp
qed

theorem state_files_at_exit_counterexample:
  "fst (main 5 (settings\<lparr>max_work_count := Some 1\<rparr>)
          (serving [ok_page [item ''1'' 5, item ''2'' 7]] (ok_page [])) (fresh []))
     = Returned 1 1 True \<and>
   csv_file (snd (main 5 (settings\<lparr>max_work_count := Some 1\<rparr>)
          (serving [ok_page [item ''1'' 5, item ''2'' 7]] (ok_page [])) (fresh [])))
     = Some [Header, Row (Some ''1'') ''Work 1'' ''2020.01.02'' 5] \<and>
   last_visited_page_txt (snd (main 5 (settings\<lparr>max_work_count := Some 1\<rparr>)
          (serving [ok_page [item ''1'' 5, item ''2'' 7]] (ok_page [])) (fresh []))) = None \<and>
   seen_work_ids_txt (snd (main 5 (settings\<lparr>max_work_count := Some 1\<rparr>)
          (serving [ok_page [item ''1'' 5, item ''2'' 7]] (ok_page [])) (fresh []))) = None \<and>
   strata_counts_json (snd (main 5 (settings\<lparr>max_work_count := Some 1\<rparr>)
          (serving [ok_page [item ''1'' 5, item ''2'' 7]] (ok_page [])) (fresh []))) = None"
  by code_simp

section \<open>Empty pages\<close>

lemma update_values: "(k', v) \<in> set (AList.update k v0 d) \<Longrightarrow> v = v0 \<or> (k', v) \<in> set d"
  by (induction d) (auto split: if_splits)

lemma dict_init_values: "(k, v) \<in> set (dict_init ks v0) \<Longrightarrow> v = v0"
proof -
  have "\<And>d. (\<forall>(k, v) \<in> set d. v = v0) \<Longrightarrow>
          (\<forall>(k, v) \<in> set (fold (\<lambda>k d. AList.update k v0 d) ks d). v = v0)"
  proof (induction ks)
    case Nil
    then show ?case by simp
  next
    case (Cons k ks)
    have "\<forall>(k', v) \<in> set (AList.update k v0 d). v = v0"
      using Cons.prems update_values [of _ _ k v0 d] by auto
    from Cons.IH [OF this] show ?case by simp
  qed
  from this [of "[]"] show "(k, v) \<in> set (dict_init ks v0) \<Longrightarrow> v = v0"
    by (auto simp: dict_init_def)
qed

lemma sample_bins_all_empty:
  "(\<forall>(b, work_bin) \<in> set d. work_bin = []) \<Longrightarrow> sample_bins m d acc s = (Inr acc, s)"
  by (induction m d acc s rule: sample_bins.induct) auto

lemma apply_sampling_empty:
  assumes "samples_empty_page cfg wd"
  shows "\<exists>g. apply_sampling wd (sampling_strategy cfg) (sampling_percentage cfg) []
            (sampling_n cfg) (kudos_bins cfg) s = (Inr [], s\<lparr>rng := g\<rparr>)"
proof -
  let ?st = "sampling_strategy cfg"
  have triv: "s = s\<lparr>rng := rng s\<rparr>" by simp
  consider (strata) "?st = Some ''strata''" | (random) "?st = Some ''random''"
    | (systematic) "?st = Some ''systematic''"
    | (none) "?st \<noteq> Some ''strata''" "?st \<noteq> Some ''random''" "?st \<noteq> Some ''systematic''"
    by blast
  then show ?thesis
  proof cases
    case strata
    have "\<forall>(b, work_bin) \<in> set (dict_init (bin_pairs (kudos_bins cfg)) ([] :: work list)). work_bin = []"
      using dict_init_values by fastforce
    then have "sample_bins (min_count_of (dict_init (butlast (kudos_bins cfg)) 0))
        (dict_init (bin_pairs (kudos_bins cfg)) []) [] s = (Inr [], s)"
      by (rule sample_bins_all_empty)
    with strata have "apply_sampling wd ?st (sampling_percentage cfg) [] (sampling_n cfg) (kudos_bins cfg) s
        = (Inr [], s)"
      by (simp add: apply_sampling_def)
    then show ?thesis by (intro exI [of _ "rng s"]) simp
  next
    case random
    with assms have "0 \<le> sample_size_of wd 0 (sampling_percentage cfg)"
      by (simp add: samples_empty_page_def)
    then have "min 0 (sample_size_of wd 0 (sampling_percentage cfg)) = 0" by simp
    with random have "apply_sampling wd ?st (sampling_percentage cfg) [] (sampling_n cfg) (kudos_bins cfg) s
        = (Inr [], s\<lparr>rng := rng s\<rparr>)"
      by (simp add: apply_sampling_def random_sample_def)
    then show ?thesis by blast
  next
    case systematic
    with assms have n: "1 \<le> sampling_n cfg" by (simp add: samples_empty_page_def)
    obtain r g where rb: "randbelow (nat (sampling_n cfg)) (rng s) = (r, g)"
      by (cases "randbelow (nat (sampling_n cfg)) (rng s)")
    from n have "nat (sampling_n cfg - 1 - 0 + 1) = nat (sampling_n cfg)" by simp
    with systematic n rb
    have "apply_sampling wd ?st (sampling_percentage cfg) [] (sampling_n cfg) (kudos_bins cfg) s
        = (Inr [], s\<lparr>rng := g\<rparr>)"
      by (simp add: apply_sampling_def random_randint_def slice_from_def)
    then show ?thesis by blast
  next
    case none
    then have "apply_sampling wd ?st (sampling_percentage cfg) [] (sampling_n cfg) (kudos_bins cfg) s
        = (Inr [], s)"
      by (simp add: apply_sampling_def)
    then show ?thesis by (intro exI [of _ "rng s"]) simp
  qed
qed

lemma fetch_listing_empty_page:
  assumes "empty_page (net wd (fetches s))"
  shows "\<exists>body. works body = [] \<and>
           fetch_listing (Suc n) wd page s = (Ok body, s\<lparr>fetches := Suc (fetches s)\<rparr>)"
proof (cases "net wd (fetches s)")
  case NetworkError
  with assms show ?thesis by (simp add: empty_page_def)
next
  case (Http status body)
  with assms have "handle_rate_limit status body page = Ok True" "works body = []"
    by (auto simp: empty_page_def handle_rate_limit_def)
  with Http show ?thesis by (simp add: requests_get_def)
qed

lemma past_end_falsy: "\<not> truthy e \<Longrightarrow> \<not> past_end e page"
  by (auto simp: truthy_def past_end_def split: option.splits)

lemma page_loop_empty_pages:
  assumes noend: "\<not> truthy (end_page cfg)"
    and sampling: "samples_empty_page cfg wd"
  shows "(\<forall>k \<ge> fetches s. empty_page (net wd k)) \<Longrightarrow>
    \<exists>g. page_loop fuel cfg wd page wc s =
      (Unfinished (page + int fuel) wc,
       s\<lparr>fetches := fetches s + fuel, rng := g,
          last_visited_page_txt := (if fuel = 0 then last_visited_page_txt s else Some (page + int fuel - 1))\<rparr>)"
proof (induction fuel arbitrary: page s)
  case 0
  show ?case by (intro exI [of _ "rng s"]) simp
next
  case (Suc fuel)
  from Suc.prems have e0: "empty_page (net wd (fetches s))" by simp
  from fetch_listing_empty_page [OF e0, of 2 page] obtain body where
    body: "works body = []" and
    f: "fetch_listing max_retries wd page s = (Ok body, s\<lparr>fetches := Suc (fetches s)\<rparr>)"
    by (auto simp: max_retries_def numeral_3_eq_3)
  let ?s1 = "s\<lparr>fetches := Suc (fetches s)\<rparr>"
  from apply_sampling_empty [OF sampling, of ?s1] obtain g where
    a: "apply_sampling wd (sampling_strategy cfg) (sampling_percentage cfg) []
            (sampling_n cfg) (kudos_bins cfg) ?s1 = (Inr [], ?s1\<lparr>rng := g\<rparr>)"
    by blast
  let ?s3 = "?s1\<lparr>rng := g, last_visited_page_txt := Some page\<rparr>"
  have rest: "\<forall>k \<ge> fetches ?s3. empty_page (net wd k)" using Suc.prems by simp
  from Suc.IH [OF rest, of "page + 1"] obtain g' where
    ih: "page_loop fuel cfg wd (page + 1) wc ?s3 =
      (Unfinished (page + 1 + int fuel) wc,
       ?s3\<lparr>fetches := fetches ?s3 + fuel, rng := g',
          last_visited_page_txt := (if fuel = 0 then last_visited_page_txt ?s3 else Some (page + 1 + int fuel - 1))\<rparr>)"
    by blast
  have "page_loop (Suc fuel) cfg wd page wc s = page_loop fuel cfg wd (page + 1) wc ?s3"
    using past_end_falsy [OF noend, of page] f body a by simp
  also have "\<dots> = (Unfinished (page + int (Suc fuel)) wc,
       s\<lparr>fetches := fetches s + Suc fuel, rng := g',
          last_visited_page_txt := Some (page + int (Suc fuel) - 1)\<rparr>)"
    unfolding ih by (simp add: add.commute add.left_commute)
  finally show ?case by (intro exI [of _ g']) simp
qed

text \<open>
  Claim C8, as the code has it. With no end page configured and sampling that does not raise
  on a page without works: a fetched page that contains zero items makes the controller
  write the page number, emit nothing and go on with the next page; and when every response
  is such a page the loop never returns: for every amount of fuel the run is still
  unfinished, one page further for each unit.
\<close>

theorem empty_page_advances:
  assumes "\<not> truthy (end_page cfg)" and "samples_empty_page cfg wd"
  shows "(empty_page (net wd (fetches s)) \<longrightarrow>
            (\<exists>g. page_loop (Suc fuel) cfg wd page wc s =
                   page_loop fuel cfg wd (page + 1) wc
                     (s\<lparr>fetches := Suc (fetches s), rng := g, last_visited_page_txt := Some page\<rparr>))) \<and>
         ((\<forall>k \<ge> fetches s0. empty_page (net wd k)) \<longrightarrow>
            fst (main fuel cfg wd s0) =
              Unfinished (resume_page (start_page (effective cfg)) (last_visited_page_txt s0) + int fuel) 0)"
proof (intro conjI impI)
  assume e0: "empty_page (net wd (fetches s))"
  from fetch_listing_empty_page [OF e0, of 2 page] obtain body where
    body: "works body = []" and
    f: "fetch_listing max_retries wd page s = (Ok body, s\<lparr>fetches := Suc (fetches s)\<rparr>)"
    by (auto simp: max_retries_def numeral_3_eq_3)
  let ?s1 = "s\<lparr>fetches := Suc (fetches s)\<rparr>"
  from apply_sampling_empty [OF assms(2), of ?s1] obtain g where
    a: "apply_sampling wd (sampling_strategy cfg) (sampling_percentage cfg) []
            (sampling_n cfg) (kudos_bins cfg) ?s1 = (Inr [], ?s1\<lparr>rng := g\<rparr>)"
    by blast
  have "page_loop (Suc fuel) cfg wd page wc s =
      page_loop fuel cfg wd (page + 1) wc
        (s\<lparr>fetches := Suc (fetches s), rng := g, last_visited_page_txt := Some page\<rparr>)"
    using past_end_falsy [OF assms(1), of page] f body a by simp
  then show "\<exists>g. page_loop (Suc fuel) cfg wd page wc s =
      page_loop fuel cfg wd (page + 1) wc
        (s\<lparr>fetches := Suc (fetches s), rng := g, last_visited_page_txt := Some page\<rparr>)"
    by blast
next
  assume all: "\<forall>k \<ge> fetches s0. empty_page (net wd k)"
  let ?first = "resume_page (start_page (effective cfg)) (last_visited_page_txt s0)"
  let ?s = "prepare (effective cfg) (boot (effective cfg) s0)"
  have noend: "\<not> truthy (end_page (effective cfg))"
    using assms(1) by (simp add: effective_def truthy_def)
  have sampling: "samples_empty_page (effective cfg) wd"
    using assms(2) by (simp add: effective_def samples_empty_page_def)
  have "\<forall>k \<ge> fetches ?s. empty_page (net wd k)"
    using all by (simp add: prepare_fields boot_fields)
  from page_loop_empty_pages [OF noend sampling this, of fuel ?first 0]
  show "fst (main fuel cfg wd s0) = Unfinished (?first + int fuel) 0"
    by (auto simp: main_def scrape_works_def cleanup_def)
qed

theorem empty_page_advances_witness:
  "empty_page (ok_page []) \<and>
   fst (main 7 settings (serving [] (ok_page [])) (fresh [])) = Unfinished 8 0"
proof -
  have e: "empty_page (ok_page [])" by (simp add: empty_page_def ok_page_def)
  have n: "\<not> truthy (end_page settings)" by (simp add: settings_def truthy_def)
  have sm: "samples_empty_page settings (serving [] (ok_page []))"
    by (simp add: samples_empty_page_def settings_def)
  have all: "\<forall>k \<ge> fetches (fresh []). empty_page (net (serving [] (ok_page [])) k)"
    using e by (simp add: serving_def replay_def)
  have first: "resume_page (start_page (effective settings)) (last_visited_page_txt (fresh [])) = 1"
    by (simp add: resume_page_def effective_def settings_def fresh_def truthy_def)
  from empty_page_advances [OF n sm, where ?s0.0 = "fresh []" and fuel = 7] all first
  have "fst (main 7 settings (serving [] (ok_page [])) (fresh [])) = Unfinished 8 0" by simp
  with e show ?thesis by simp
qed

theorem empty_page_advances_counterexample:
  "net (serving [] (ok_page [])) 0 = ok_page [] \<and>
   fst (main 5 settings (serving [] (ok_page [])) (fresh [])) = Unfinished 6 0 \<and>
   fetches (snd (main 5 settings (serving [] (ok_page [])) (fresh []))) = 5 \<and>
   last_visited_page_txt (snd (main 5 settings (serving [] (ok_page [])) (fresh []))) = Some 5"
  by code_simp

section \<open>Rate limiting\<close>

lemma halts_at_marker_same: "fetches s' = fetches s \<Longrightarrow> halts_at_marker wd s b s'"
  by (auto simp: halts_at_marker_def)

lemma halts_at_marker_then:
  "halts_at_marker wd s False s1 \<Longrightarrow> halts_at_marker wd s1 b s2 \<Longrightarrow> halts_at_marker wd s b s2"
  unfolding halts_at_marker_def
  by (metis le_trans not_le_imp_less)

lemma fetch_listing_marker:
  "halts_at_marker wd s (limited_stop (fst (fetch_listing n wd page s))) (snd (fetch_listing n wd page s))"
proof (induction n arbitrary: s)
  case 0
  show ?case by (simp add: halts_at_marker_same)
next
  case (Suc n)
  let ?s1 = "s\<lparr>fetches := Suc (fetches s)\<rparr>"
  have one: "halts_at_marker wd s b ?s1" if "b \<or> \<not> marker_response (net wd (fetches s))" for b
    using that unfolding halts_at_marker_def by (auto simp: less_Suc_eq_le)
  note ih = Suc.IH [of ?s1]
  show ?case
  proof (cases "net wd (fetches s)")
    case NetworkError
    then have "halts_at_marker wd s False ?s1" using one by (simp add: marker_response_def)
    from halts_at_marker_then [OF this ih] NetworkError show ?thesis
      by (simp add: requests_get_def)
  next
    case (Http status body)
    show ?thesis
    proof (cases "400 \<le> status \<and> status < 600")
      case True
      with Http have "halts_at_marker wd s False ?s1" using one by (simp add: marker_response_def)
      from halts_at_marker_then [OF this ih] Http True show ?thesis
        by (simp add: requests_get_def handle_rate_limit_def)
    next
      case False
      show ?thesis
      proof (cases "retry_later body")
        case True
        with Http False one [of True] show ?thesis
          by (auto simp: requests_get_def handle_rate_limit_def limited_stop_def)
      next
        case nm: False
        with Http False have "halts_at_marker wd s False ?s1" using one by (simp add: marker_response_def)
        with Http False nm show ?thesis
          by (auto simp: requests_get_def handle_rate_limit_def limited_stop_def)
      qed
    qed
  qed
qed

lemma fetch_published_marker:
  "halts_at_marker wd s (limited_stop (fst (fetch_published wd page s))) (snd (fetch_published wd page s))"
proof -
  let ?s1 = "s\<lparr>fetches := Suc (fetches s)\<rparr>"
  have one: "halts_at_marker wd s b ?s1" if "b \<or> \<not> marker_response (net wd (fetches s))" for b
    using that unfolding halts_at_marker_def by (auto simp: less_Suc_eq_le)
  show ?thesis
  proof (cases "net wd (fetches s)")
    case NetworkError
    with one [of False] show ?thesis
      by (simp add: fetch_published_def requests_get_def marker_response_def limited_stop_def)
  next
    case (Http status body)
    with one [of True] one [of False] show ?thesis
      by (auto simp: fetch_published_def requests_get_def marker_response_def limited_stop_def
            handle_rate_limit_def)
  qed
qed

lemma scrape_single_work_marker:
  "halts_at_marker wd s (limited_stop (fst (scrape_single_work wd bins page w s)))
     (snd (scrape_single_work wd bins page w s))"
proof (cases "title w")
  case None
  then show ?thesis by (simp add: scrape_single_work_def halts_at_marker_same)
next
  case (Some t)
  show ?thesis
  proof (cases "work_id w \<in> seen_work_ids s")
    case True
    with Some show ?thesis by (simp add: scrape_single_work_def halts_at_marker_same)
  next
    case False
    obtain r s1 where fp: "fetch_published wd page s = (r, s1)" by (cases "fetch_published wd page s")
    with fetch_published_marker [of wd s page] have m1: "halts_at_marker wd s (limited_stop r) s1" by simp
    show ?thesis
    proof (cases r)
      case (Stop x)
      with Some False fp m1 show ?thesis by (simp add: scrape_single_work_def limited_stop_def)
    next
      case (Ok d)
      with m1 have m1': "halts_at_marker wd s False s1" by (simp add: limited_stop_def)
      have "halts_at_marker wd s1 (limited_stop (fst (record_work bins w t d s1))) (snd (record_work bins w t d s1))"
        by (rule halts_at_marker_same) (simp add: record_work_fields)
      from halts_at_marker_then [OF m1' this] Some False fp Ok show ?thesis
        by (simp add: scrape_single_work_def)
    qed
  qed
qed

lemma scrape_page_marker:
  "halts_at_marker wd s (limited_stop (fst (scrape_page cfg wd page ws wc s)))
     (snd (scrape_page cfg wd page ws wc s))"
proof (induction ws arbitrary: wc s)
  case Nil
  show ?case by (simp add: halts_at_marker_same)
next
  case (Cons w ws)
  show ?case
  proof (cases "work_id w \<in> seen_work_ids s")
    case True
    with Cons.IH show ?thesis by simp
  next
    case False
    obtain r s1 where one: "scrape_single_work wd (kudos_bins cfg) page w s = (r, s1)"
      by (cases "scrape_single_work wd (kudos_bins cfg) page w s")
    with scrape_single_work_marker [of wd s "kudos_bins cfg" page w]
    have m1: "halts_at_marker wd s (limited_stop r) s1" by simp
    show ?thesis
    proof (cases r)
      case (Stop x)
      with False one m1 show ?thesis by (simp add: limited_stop_def)
    next
      case (Ok u)
      with m1 have m1': "halts_at_marker wd s False s1" by (simp add: limited_stop_def)
      show ?thesis
      proof (cases "max_reached (max_work_count cfg) (Suc wc)")
        case True
        with False one Ok m1' show ?thesis by (simp add: limited_stop_def)
      next
        case nr: False
        from halts_at_marker_then [OF m1' Cons.IH [of s1 "Suc wc"]] False one Ok nr
        show ?thesis by simp
      qed
    qed
  qed
qed

lemma page_loop_marker:
  "halts_at_marker wd s (limited_run (fst (page_loop fuel cfg wd page wc s)))
     (snd (page_loop fuel cfg wd page wc s))"
proof (induction fuel arbitrary: page wc s)
  case 0
  show ?case by (simp add: halts_at_marker_same)
next
  case (Suc fuel)
  show ?case
  proof (cases "past_end (end_page cfg) page")
    case True
    then show ?thesis by (simp add: halts_at_marker_same)
  next
    case False
    obtain r1 s1 where f: "fetch_listing max_retries wd page s = (r1, s1)"
      by (cases "fetch_listing max_retries wd page s")
    with fetch_listing_marker [of wd s max_retries page]
    have m1: "halts_at_marker wd s (limited_stop r1) s1" by simp
    show ?thesis
    proof (cases r1)
      case (Stop x)
      with False f m1 show ?thesis
        by (cases x) (simp_all add: limited_stop_def limited_run_def)
    next
      case (Ok soup)
      with m1 have m1': "halts_at_marker wd s False s1" by (simp add: limited_stop_def)
      obtain r2 s2 where a: "apply_sampling wd (sampling_strategy cfg) (sampling_percentage cfg)
          (works soup) (sampling_n cfg) (kudos_bins cfg) s1 = (r2, s2)"
        by (cases "apply_sampling wd (sampling_strategy cfg) (sampling_percentage cfg)
          (works soup) (sampling_n cfg) (kudos_bins cfg) s1")
      with apply_sampling_fields(6) [of wd "sampling_strategy cfg" "sampling_percentage cfg"
          "works soup" "sampling_n cfg" "kudos_bins cfg" s1]
      have f2: "fetches s2 = fetches s1" by simp
      let ?s2 = "s2\<lparr>last_visited_page_txt := Some page\<rparr>"
      have "halts_at_marker wd s1 False ?s2" using f2 by (simp add: halts_at_marker_same)
      with m1' have m2: "halts_at_marker wd s False ?s2" by (rule halts_at_marker_then)
      have m2': "halts_at_marker wd s False s2" using m2 by (simp add: halts_at_marker_def)
      show ?thesis
      proof (cases r2)
        case (Inl e)
        with False f Ok a m2' show ?thesis by (simp add: limited_run_def halts_at_marker_def)
      next
        case (Inr sampled)
        obtain r3 s3 where p: "scrape_page cfg wd page sampled wc ?s2 = (r3, s3)"
          by (cases "scrape_page cfg wd page sampled wc ?s2")
        with scrape_page_marker [of wd ?s2 cfg page sampled wc]
        have m3: "halts_at_marker wd ?s2 (limited_stop r3) s3" by simp
        show ?thesis
        proof (cases r3)
          case (Stop x)
          from halts_at_marker_then [OF m2 m3] Stop False f Ok a Inr p show ?thesis
            by (cases x) (simp_all add: limited_stop_def limited_run_def)
        next
          case ok3: (Ok res)
          obtain wc' sb where res: "res = (wc', sb)" by (cases res)
          from m3 ok3 have "halts_at_marker wd ?s2 False s3" by (simp add: limited_stop_def)
          with m2 have m3': "halts_at_marker wd s False s3" by (rule halts_at_marker_then)
          show ?thesis
          proof (cases sb)
            case True
            with False f Ok a Inr p ok3 res m3' show ?thesis by (simp add: limited_run_def)
          next
            case nb: False
            from halts_at_marker_then [OF m3' Suc.IH [of s3 "page + 1" wc']]
              False f Ok a Inr p ok3 res nb
            show ?thesis by simp
          qed
        qed
      qed
    qed
  qed
qed

text \<open>
  Claim C5, as the code has it. A response that passes \<^verbatim>\<open>raise_for_status\<close> and carries
  the marker phrase is not retried: whether it answers the fetch of a listing page or the
  fetch of a work's page, the process stops at once, in the state it had before the fetch
  but for the count of requests; and over a whole run, a marker response is the last
  response the run receives and the run ends as rate limited. A response with an error
  status (the rate-limiting status 429 among them) is handled as any failed fetch: the
  listing fetch is tried again while attempts are left, and the fetch of a work's page
  gives the publication date \<^verbatim>\<open>"Unknown"\<close> and the work is emitted.
\<close>

theorem marker_halts_run:
  "(marker_response (net wd (fetches s)) \<and> \<not> past_end (end_page cfg) page \<longrightarrow>
      page_loop (Suc fuel) cfg wd page wc s =
        (Halted page Fetching (RateLimited page), s\<lparr>fetches := Suc (fetches s)\<rparr>)) \<and>
   (marker_response (net wd (fetches s)) \<and> title w \<noteq> None \<and> work_id w \<notin> seen_work_ids s \<longrightarrow>
      scrape_page cfg wd page (w # ws) wc s =
        (Stop (RateLimited page), s\<lparr>fetches := Suc (fetches s)\<rparr>)) \<and>
   (\<forall>k. fetches s0 \<le> k \<and> k < fetches (snd (main fuel cfg wd s0)) \<and> marker_response (net wd k) \<longrightarrow>
        Suc k = fetches (snd (main fuel cfg wd s0)) \<and> limited_run (fst (main fuel cfg wd s0))) \<and>
   (\<forall>status body. net wd (fetches s) = Http status body \<and> 400 \<le> status \<and> status < 600 \<longrightarrow>
        fetch_listing (Suc n) wd page s = fetch_listing n wd page (s\<lparr>fetches := Suc (fetches s)\<rparr>) \<and>
        fetch_published wd page s = (Ok ''Unknown'', s\<lparr>fetches := Suc (fetches s)\<rparr>))"
proof (intro conjI impI allI)
  assume a: "marker_response (net wd (fetches s)) \<and> \<not> past_end (end_page cfg) page"
  then obtain status body where h: "net wd (fetches s) = Http status body"
    and ok: "\<not> (400 \<le> status \<and> status < 600)" and mk: "retry_later body"
    by (cases "net wd (fetches s)") (auto simp: marker_response_def)
  then have "fetch_listing max_retries wd page s = (Stop (RateLimited page), s\<lparr>fetches := Suc (fetches s)\<rparr>)"
    by (auto simp: max_retries_def numeral_3_eq_3 requests_get_def handle_rate_limit_def)
  with a show "page_loop (Suc fuel) cfg wd page wc s =
        (Halted page Fetching (RateLimited page), s\<lparr>fetches := Suc (fetches s)\<rparr>)"
    by simp
next
  assume a: "marker_response (net wd (fetches s)) \<and> title w \<noteq> None \<and> work_id w \<notin> seen_work_ids s"
  then obtain status body where h: "net wd (fetches s) = Http status body"
    and ok: "\<not> (400 \<le> status \<and> status < 600)" and mk: "retry_later body"
    by (cases "net wd (fetches s)") (auto simp: marker_response_def)
  then have "fetch_published wd page s = (Stop (RateLimited page), s\<lparr>fetches := Suc (fetches s)\<rparr>)"
    by (auto simp: fetch_published_def requests_get_def handle_rate_limit_def)
  with a show "scrape_page cfg wd page (w # ws) wc s =
        (Stop (RateLimited page), s\<lparr>fetches := Suc (fetches s)\<rparr>)"
    by (auto simp: scrape_single_work_def)
next
  fix k
  assume a: "fetches s0 \<le> k \<and> k < fetches (snd (main fuel cfg wd s0)) \<and> marker_response (net wd k)"
  let ?first = "resume_page (start_page (effective cfg)) (last_visited_page_txt s0)"
  let ?s = "prepare (effective cfg) (boot (effective cfg) s0)"
  let ?c = "page_loop fuel (effective cfg) wd ?first 0 ?s"
  have m: "main fuel cfg wd s0 = cleanup ?c" by (simp add: main_def scrape_works_def)
  have f0: "fetches ?s = fetches s0" by (simp add: prepare_fields boot_fields)
  have fm: "fetches (snd (cleanup ?c)) = fetches (snd ?c)"
    and lm: "limited_run (fst (cleanup ?c)) = limited_run (fst ?c)"
    by (cases ?c; cases "fst ?c"; simp add: cleanup_def remove_state_files_def)+
  from page_loop_marker [of wd ?s fuel "effective cfg" ?first 0] a
  show "Suc k = fetches (snd (main fuel cfg wd s0))" and "limited_run (fst (main fuel cfg wd s0))"
    unfolding m fm lm halts_at_marker_def f0 by (simp_all add: m fm)
next
  fix status body
  assume "net wd (fetches s) = Http status body \<and> 400 \<le> status \<and> status < 600"
  then show "fetch_listing (Suc n) wd page s = fetch_listing n wd page (s\<lparr>fetches := Suc (fetches s)\<rparr>)"
    and "fetch_published wd page s = (Ok ''Unknown'', s\<lparr>fetches := Suc (fetches s)\<rparr>)"
    by (simp_all add: requests_get_def handle_rate_limit_def fetch_published_def)
qed

theorem marker_halts_run_witness:
  "marker_response (net (serving [ok_page [item ''1'' 5], limited] (ok_page [])) 1) \<and>
   limited_run (fst (main 5 settings (serving [ok_page [item ''1'' 5], limited] (ok_page [])) (fresh []))) \<and>
   fetches (snd (main 5 settings (serving [ok_page [item ''1'' 5], limited] (ok_page [])) (fresh []))) = 2 \<and>
   csv_file (snd (main 5 settings (serving [ok_page [item ''1'' 5], limited] (ok_page [])) (fresh [])))
     = Some [Header]"
proof -
  let ?wd = "serving [ok_page [item ''1'' 5], limited] (ok_page [])"
  have mk: "marker_response (net ?wd 1)"
    by (simp add: marker_response_def serving_def replay_def limited_def)
  have two: "fetches (snd (main 5 settings ?wd (fresh []))) = 2" by code_simp
  have csv: "csv_file (snd (main 5 settings ?wd (fresh []))) = Some [Header]" by code_simp
  have "fetches (fresh []) \<le> 1 \<and> 1 < fetches (snd (main 5 settings ?wd (fresh []))) \<and>
      marker_response (net ?wd 1)"
    using mk two by (simp add: fresh_def)
  with marker_halts_run [where wd = ?wd and ?s0.0 = "fresh []" and cfg = settings and fuel = 5]
  have "limited_run (fst (main 5 settings ?wd (fresh [])))" by blast
  with mk two csv show ?thesis by simp
qed

theorem marker_halts_run_counterexample:
  "net (serving [too_many] (ok_page [])) 0 = Http 429 \<lparr>retry_later = False, works = [], published = []\<rparr> \<and>
   fst (main 2 settings (serving [too_many] (ok_page [])) (fresh [])) = Unfinished 3 0 \<and>
   fetches (snd (main 2 settings (serving [too_many] (ok_page [])) (fresh []))) = 3"
  by code_simp

section \<open>The running counters and the count of emitted records\<close>

text \<open>
  Claim C3 on a failing input. Strata sampling over one page with five works in \<open>[0, 100)\<close>
  and two in \<open>[100, 500)\<close>: two records of each bin are emitted, and the persisted counters
  are 4 and 4, since \<^verbatim>\<open>apply_sampling\<close> adds the sampled count to each bin and
  \<^verbatim>\<open>scrape_single_work\<close> adds 1 again for each emitted record.
\<close>

theorem strata_counters_count_twice:
  "strata_counts_json
     (snd (main 5 (settings\<lparr>sampling_strategy := Some ''strata'', kudos_bins := [0, 100, 500, 1000]\<rparr>)
             (serving [ok_page page_5_2_0, ok_page [], ok_page [], ok_page [], ok_page [], limited]
                (ok_page []))
             (fresh [3, 1, 4, 1])))
     = Some [(0, 4), (100, 4), (500, 0)] \<and>
   map (\<lambda>b. emitted_in_bin b
     (snd (main 5 (settings\<lparr>sampling_strategy := Some ''strata'', kudos_bins := [0, 100, 500, 1000]\<rparr>)
             (serving [ok_page page_5_2_0, ok_page [], ok_page [], ok_page [], ok_page [], limited]
                (ok_page []))
             (fresh [3, 1, 4, 1])))) [(0, 100), (100, 500), (500, 1000)]
     = [2, 2, 0]"
  by code_simp

text \<open>
  Claim C7 on a failing input. With \<open>max_work_count = 3\<close> and a page of ten works whose
  first has no title element, the run stops on page 1 with \<open>work_count = 3\<close> after two
  records: the work without a title is counted and not emitted.
\<close>

theorem max_count_counts_untitled:
  "fst (main 5 (settings\<lparr>max_work_count := Some 3\<rparr>) (serving [ok_page ten_works] (ok_page []))
          (fresh []))
     = Returned 1 3 True \<and>
   csv_file (snd (main 5 (settings\<lparr>max_work_count := Some 3\<rparr>)
          (serving [ok_page ten_works] (ok_page [])) (fresh [])))
     = Some [Header, Row (Some ''2'') ''Work 2'' ''2020.01.02'' 7,
             Row (Some ''3'') ''Work 3'' ''2020.01.02'' 8]"
  by code_simp

section \<open>The seen-set and the Sink\<close>

subsection \<open>The seen-set file read back\<close>

lemma newline_is_space: "is_space newline"
  by (simp add: is_space_def newline_def)

lemma clean_no_newline: "clean_id i \<Longrightarrow> newline \<notin> set i"
  using newline_is_space by (auto simp: clean_id_def list_all_iff)

lemma clean_no_cr: "clean_id i \<Longrightarrow> CHR 0x0D \<notin> set i"
  by (auto simp: clean_id_def list_all_iff is_space_def)

lemma universal_newlines_id: "CHR 0x0D \<notin> set t \<Longrightarrow> universal_newlines t = t"
  by (induction t rule: universal_newlines.induct) auto

lemma seen_lines_no_cr: "list_all clean_id ids \<Longrightarrow> CHR 0x0D \<notin> set (seen_lines ids)"
  by (induction ids) (auto simp: seen_lines_def newline_def dest: clean_no_cr)

lemma py_split_line:
  "newline \<notin> set i \<Longrightarrow> py_split newline (i @ newline # rest) = i # py_split newline rest"
  by (induction i) (auto split: list.splits)

lemma py_split_last: "newline \<notin> set i \<Longrightarrow> py_split newline i = [i]"
  by (induction i) (auto split: list.splits)

lemma seen_lines_joined: "ids \<noteq> [] \<Longrightarrow> seen_lines ids = joined ids @ [newline]"
  by (induction ids rule: joined.induct) (auto simp: seen_lines_def)

lemma py_split_joined:
  "list_all clean_id ids \<Longrightarrow> ids \<noteq> [] \<Longrightarrow> py_split newline (joined ids) = ids"
proof (induction ids rule: joined.induct)
  case 1
  then show ?case by simp
next
  case (2 i)
  then show ?case by (simp add: py_split_last clean_no_newline)
next
  case (3 i j ids)
  then show ?case by (simp add: py_split_line clean_no_newline)
qed

lemma joined_ends:
  "list_all clean_id ids \<Longrightarrow> ids \<noteq> [] \<Longrightarrow>
     joined ids \<noteq> [] \<and> \<not> is_space (hd (joined ids)) \<and> \<not> is_space (last (joined ids))"
proof (induction ids rule: joined.induct)
  case 1
  then show ?case by simp
next
  case (2 i)
  then have "i \<noteq> []" and all: "\<forall>c \<in> set i. \<not> is_space c"
    by (simp_all add: clean_id_def list_all_iff)
  then have "hd i \<in> set i" "last i \<in> set i" by simp_all
  with all \<open>i \<noteq> []\<close> show ?case by simp
next
  case (3 i j ids)
  then have "joined (j # ids) \<noteq> []" "\<not> is_space (last (joined (j # ids)))" by simp_all
  moreover from 3 have "i \<noteq> []" "\<not> is_space (hd i)" by (cases i; auto simp: clean_id_def)+
  ultimately show ?case by (cases i) auto
qed

lemma py_strip_joined:
  assumes "list_all clean_id ids" "ids \<noteq> []"
  shows "py_strip (seen_lines ids) = joined ids"
proof -
  from joined_ends [OF assms] obtain a t b u where
    fr: "joined ids = a # t" "\<not> is_space a" and bk: "joined ids = u @ [b]" "\<not> is_space b"
    by (metis hd_Cons_tl append_butlast_last_id list.sel(1))
  have "dropWhile is_space (seen_lines ids) = seen_lines ids"
    using fr by (simp add: seen_lines_joined [OF assms(2)])
  moreover have "rev (seen_lines ids) = newline # rev (joined ids)"
    by (simp add: seen_lines_joined [OF assms(2)])
  moreover have "dropWhile is_space (rev (joined ids)) = rev (joined ids)"
    using bk by simp
  ultimately show ?thesis by (simp add: py_strip_def newline_is_space)
qed

lemma load_seen_lines:
  assumes "list_all clean_id ids"
  shows "Some ` set ids \<subseteq> load_seen (seen_lines ids)"
proof (cases "ids = []")
  case True
  then show ?thesis by simp
next
  case False
  have "universal_newlines (seen_lines ids) = seen_lines ids"
    using assms by (simp add: universal_newlines_id seen_lines_no_cr)
  with assms False show ?thesis
    by (simp add: load_seen_def py_strip_joined py_split_joined)
qed

subsection \<open>What is sampled comes from the page\<close>

lemma sample_pool_subset: "k \<le> length pool \<Longrightarrow> set (fst (sample_pool k pool g)) \<subseteq> set pool"
  using sample_pool_spec [of k pool g] by (metis set_mset_mono set_mset_mset)

lemma random_sample_subset: "random_sample xs k g = (Inr r, g') \<Longrightarrow> set r \<subseteq> set xs"
  using sample_pool_subset [of "nat k" xs g]
  by (auto simp: random_sample_def split: if_splits prod.splits)

lemma stride_subset: "set (stride n xs) \<subseteq> set xs"
proof (induction n xs rule: stride.induct)
  case (1 n)
  show ?case by simp
next
  case (2 n x xs)
  have "set (drop (n - 1) xs) \<subseteq> set xs" by (rule set_drop_subset)
  with "2.IH" show ?case by auto
qed

lemma slice_from_subset: "set (slice_from r n xs) \<subseteq> set xs"
  unfolding slice_from_def using stride_subset [of n "drop r xs"] set_drop_subset [of r xs] by blast

lemma binned_update: "binned (AList.update b ws d) \<subseteq> binned d \<union> set ws"
  using update_values [of _ _ b ws d] by (fastforce simp: binned_def)

lemma binned_lookup: "map_of d b = Some ws \<Longrightarrow> set ws \<subseteq> binned d"
  by (auto simp: binned_def dest: map_of_SomeD)

lemma binned_init: "binned (dict_init ks []) = {}"
  using dict_init_values [of _ _ ks "[]"] by (fastforce simp: binned_def)

lemma categorize_work_binned:
  "categorize_work bins w d = Inr d' \<Longrightarrow> binned (fst d') \<subseteq> binned (fst d) \<union> {w}"
proof -
  assume a: "categorize_work bins w d = Inr d'"
  show ?thesis
  proof (cases "find_bin bins (kudos w)")
    case None
    with a show ?thesis by (auto simp: categorize_work_def)
  next
    case (Some b)
    with a obtain ws c where ws: "map_of (fst d) b = Some ws"
      and d': "fst d' = AList.update b (ws @ [w]) (fst d)"
      by (auto simp: categorize_work_def split: option.splits)
    from binned_update [of b "ws @ [w]" "fst d"] binned_lookup [OF ws] d'
    show ?thesis by auto
  qed
qed

lemma categorize_binned:
  "categorize bins ws d = Inr d' \<Longrightarrow> binned (fst d') \<subseteq> binned (fst d) \<union> set ws"
proof (induction ws arbitrary: d)
  case Nil
  then show ?case by simp
next
  case (Cons w ws)
  from Cons.prems obtain d1 where one: "categorize_work bins w d = Inr d1"
    and rest: "categorize bins ws d1 = Inr d'"
    by (auto split: sum.splits)
  from categorize_work_binned [OF one] Cons.IH [OF rest] show ?case by auto
qed

lemma sample_bins_subset:
  "sample_bins m d acc s = (Inr r, s') \<Longrightarrow> set r \<subseteq> set acc \<union> binned d"
proof (induction m d acc s rule: sample_bins.induct)
  case (1 min_count sampled s)
  then show ?case by simp
next
  case (2 min_count bin_start bin_end work_bin rest sampled s)
  have b: "binned (((bin_start, bin_end), work_bin) # rest) = set work_bin \<union> binned rest"
    by (simp add: binned_def)
  show ?case
  proof (cases "0 < length work_bin \<and> 0 < min_count")
    case False
    with "2.prems" have "sample_bins min_count rest sampled s = (Inr r, s')" by auto
    from "2.IH"(2) [OF False this] b show ?thesis by auto
  next
    case True
    obtain x g where rs: "random_sample work_bin (int min_count) (rng s) = (x, g)"
      by (cases "random_sample work_bin (int min_count) (rng s)")
    show ?thesis
    proof (cases x)
      case (Inl e)
      with True rs "2.prems" show ?thesis by simp
    next
      case (Inr y)
      from random_sample_subset rs Inr have y: "set y \<subseteq> set work_bin" by blast
      from "2.prems" True rs Inr "2.IH"(1) [OF True rs [symmetric] Inr]
      have "set r \<subseteq> set (sampled @ y) \<union> binned rest" by simp
      with y b show ?thesis by auto
    qed
  qed
qed

lemma apply_sampling_subset:
  assumes "apply_sampling wd st pct ws n bins s = (Inr r, s')"
  shows "set r \<subseteq> set ws"
proof -
  consider (strata) "st = Some ''strata''" | (random) "st \<noteq> Some ''strata''" "st = Some ''random''"
    | (systematic) "st \<noteq> Some ''strata''" "st \<noteq> Some ''random''" "st = Some ''systematic''"
    | (none) "st \<noteq> Some ''strata''" "st \<noteq> Some ''random''" "st \<noteq> Some ''systematic''"
    by blast
  then show ?thesis
  proof cases
    case strata
    with assms obtain d where c: "categorize bins ws (dict_init (bin_pairs bins) [], dict_init (butlast bins) 0) = Inr d"
      and sb: "sample_bins (min_count_of (snd d)) (fst d) [] s = (Inr r, s')"
      by (auto simp: apply_sampling_def split: sum.splits)
    from categorize_binned [OF c] have "binned (fst d) \<subseteq> set ws" by (simp add: binned_init)
    with sample_bins_subset [OF sb] show ?thesis by auto
  next
    case random
    with assms obtain g where "random_sample ws
        (min (int (length ws)) (sample_size_of wd (length ws) pct)) (rng s) = (Inr r, g)"
      by (auto simp: apply_sampling_def split: prod.splits)
    then show ?thesis by (rule random_sample_subset)
  next
    case systematic
    with assms obtain start where "r = slice_from (nat start) (nat n) ws"
      by (auto simp: apply_sampling_def split: prod.splits sum.splits)
    then show ?thesis by (simp add: slice_from_subset)
  next
    case none
    with assms show ?thesis by (auto simp: apply_sampling_def)
  qed
qed

lemma fetch_listing_from_net:
  "fetch_listing n wd page s = (Ok body, s') \<Longrightarrow> \<exists>k status. net wd k = Http status body"
proof (induction n arbitrary: s)
  case 0
  then show ?case by simp
next
  case (Suc n)
  show ?case
  proof (cases "net wd (fetches s)")
    case NetworkError
    with Suc.prems Suc.IH show ?thesis by (auto simp: requests_get_def)
  next
    case (Http status b)
    with Suc.prems Suc.IH show ?thesis
      by (auto simp: requests_get_def handle_rate_limit_def split: if_splits)
  qed
qed

subsection \<open>Records and the seen-set\<close>

lemma pairs_of_append: "pairs_of (m @ n) = pairs_of m @ pairs_of n"
  by (simp add: pairs_of_def)

lemma records_append: "records (rs @ rs') = records rs @ records rs'"
  by (induction rs rule: records.induct) simp_all

lemma sink_same: "csv_file s' = csv_file s \<Longrightarrow> sink s' = sink s"
  by (simp add: sink_def)

lemma sink_ids_same: "csv_file s' = csv_file s \<Longrightarrow> sink_ids s' = sink_ids s"
  by (simp add: sink_ids_def sink_def)

lemma map_filter_snoc:
  "List.map_filter f (xs @ [x]) = List.map_filter f xs @ (case f x of None \<Rightarrow> [] | Some y \<Rightarrow> [y])"
  by (induction xs) (auto simp: List.map_filter_simps split: option.splits)

lemma emits_same:
  assumes "csv_file s' = csv_file s" "seen_work_ids s' = seen_work_ids s" "trace s' = trace s"
  shows "emits s s'"
proof -
  have "sink s' = sink s" using assms(1) by (rule sink_same)
  with assms(2,3) show ?thesis
    unfolding emits_def by (intro exI [of _ "[]"]) (simp add: pairs_of_def)
qed

lemma emits_refl: "emits s s"
  by (rule emits_same) simp_all

lemma emits_trans: "emits s s1 \<Longrightarrow> emits s1 s2 \<Longrightarrow> emits s s2"
proof -
  assume "emits s s1" "emits s1 s2"
  then obtain m n where m: "sink s1 = sink s @ m" "seen_work_ids s1 = seen_work_ids s \<union> set m"
      "trace s1 = trace s @ pairs_of m" "distinct m" "set m \<inter> seen_work_ids s = {}"
    and n: "sink s2 = sink s1 @ n" "seen_work_ids s2 = seen_work_ids s1 \<union> set n"
      "trace s2 = trace s1 @ pairs_of n" "distinct n" "set n \<inter> seen_work_ids s1 = {}"
    unfolding emits_def by blast
  from m(2) n(5) have d: "set m \<inter> set n = {}" "set n \<inter> seen_work_ids s = {}" by auto
  show "emits s s2"
    unfolding emits_def
    by (rule exI [of _ "m @ n"]) (use m n d in \<open>auto simp: pairs_of_append\<close>)
qed

lemma in_step_same:
  assumes "csv_file s' = csv_file s" "seen_work_ids s' = seen_work_ids s"
    "seen_work_ids_txt s' = seen_work_ids_txt s" "in_step s"
  shows "in_step s'"
proof -
  have "sink_ids s' = sink_ids s" using assms(1) by (rule sink_ids_same)
  with assms(2,3,4) show ?thesis by (simp add: in_step_def resumable_def)
qed

lemma record_work_effect:
  "sink (snd (record_work bins w t d s)) = sink s @ [work_id w] \<and>
   seen_work_ids (snd (record_work bins w t d s)) = insert (work_id w) (seen_work_ids s) \<and>
   trace (snd (record_work bins w t d s)) = trace s @ [RowWritten (work_id w), SeenAdded (work_id w)] \<and>
   seen_work_ids_txt (snd (record_work bins w t d s)) =
     (case work_id w of
        None \<Rightarrow> Some (case seen_work_ids_txt s of None \<Rightarrow> [] | Some c \<Rightarrow> c)
      | Some i \<Rightarrow> Some ((case seen_work_ids_txt s of None \<Rightarrow> [] | Some c \<Rightarrow> c) @ i @ [newline]))"
  by (auto simp: record_work_def writerow_def Let_def sink_def records_append split: option.splits)

lemma record_work_emits:
  "work_id w \<notin> seen_work_ids s \<Longrightarrow> emits s (snd (record_work bins w t d s))"
  unfolding emits_def
  using record_work_effect [of bins w t d s]
  by (intro exI [of _ "[work_id w]"]) (simp add: pairs_of_def)

lemma seen_lines_snoc: "seen_lines (ids @ [i]) = seen_lines ids @ i @ [newline]"
  by (simp add: seen_lines_def)

lemma record_work_in_step:
  assumes inv: "in_step s" and new: "work_id w \<notin> seen_work_ids s" and cl: "clean_work w"
  shows "in_step (snd (record_work bins w t d s))"
proof -
  let ?s' = "snd (record_work bins w t d s)"
  from record_work_effect [of bins w t d s]
  have sk: "sink ?s' = sink s @ [work_id w]"
    and sn: "seen_work_ids ?s' = insert (work_id w) (seen_work_ids s)"
    and tx: "seen_work_ids_txt ?s' =
     (case work_id w of
        None \<Rightarrow> Some (case seen_work_ids_txt s of None \<Rightarrow> [] | Some c \<Rightarrow> c)
      | Some i \<Rightarrow> Some ((case seen_work_ids_txt s of None \<Rightarrow> [] | Some c \<Rightarrow> c) @ i @ [newline]))"
    by simp_all
  from inv obtain ids where d: "distinct (sink_ids s)" and c: "list_all clean_id ids"
    and sub: "set (sink_ids s) \<subseteq> set ids"
    and fl: "case seen_work_ids_txt s of None \<Rightarrow> ids = [] | Some content \<Rightarrow> content = seen_lines ids"
    and mem: "Some ` set (sink_ids s) \<subseteq> seen_work_ids s"
    by (auto simp: in_step_def resumable_def)
  show ?thesis
  proof (cases "work_id w")
    case None
    then have "sink_ids ?s' = sink_ids s" by (simp add: sink_ids_def sk map_filter_snoc)
    have "seen_work_ids_txt ?s' = Some (seen_lines ids)"
      using tx None fl by (cases "seen_work_ids_txt s") (simp_all add: seen_lines_def)
    with \<open>sink_ids ?s' = sink_ids s\<close> d c sub mem sn show ?thesis
      by (auto simp: in_step_def resumable_def)
  next
    case (Some i)
    then have si: "sink_ids ?s' = sink_ids s @ [i]" by (simp add: sink_ids_def sk map_filter_snoc)
    from new Some mem have fresh_i: "i \<notin> set (sink_ids s)" by auto
    from cl Some have ci: "clean_id i" by (simp add: clean_work_def)
    have f': "seen_work_ids_txt ?s' = Some (seen_lines (ids @ [i]))"
      using tx Some fl by (cases "seen_work_ids_txt s") (simp_all add: seen_lines_snoc seen_lines_def)
    have "distinct (sink_ids ?s')" using d fresh_i si by simp
    moreover have "list_all clean_id (ids @ [i])" using c ci by simp
    moreover have "set (sink_ids ?s') \<subseteq> set (ids @ [i])" using sub si by auto
    moreover have "Some ` set (sink_ids ?s') \<subseteq> seen_work_ids ?s'" using mem si sn Some by auto
    ultimately show ?thesis
      unfolding in_step_def resumable_def using f' by (auto intro!: exI [of _ "ids @ [i]"])
  qed
qed

lemma scrape_single_work_emits: "emits s (snd (scrape_single_work wd bins page w s))"
proof -
  let ?s1 = "s\<lparr>fetches := Suc (fetches s)\<rparr>"
  have e1: "emits s ?s1" by (rule emits_same) simp_all
  have "\<And>t d. work_id w \<notin> seen_work_ids s \<Longrightarrow> emits s (snd (record_work bins w t d ?s1))"
    using emits_trans [OF e1 record_work_emits] by simp
  moreover have "snd (fetch_published wd page s) = ?s1" by (rule fetch_published_frame)
  ultimately show ?thesis
    using e1 emits_refl
    by (auto simp: scrape_single_work_def split: option.splits prod.splits outcome.splits)
qed

lemma scrape_single_work_in_step:
  assumes "in_step s" "clean_work w"
  shows "in_step (snd (scrape_single_work wd bins page w s))"
proof -
  let ?s1 = "s\<lparr>fetches := Suc (fetches s)\<rparr>"
  have i1: "in_step ?s1" by (rule in_step_same [of ?s1 s]) (simp_all add: assms(1))
  have fp: "snd (fetch_published wd page s) = ?s1" by (rule fetch_published_frame)
  show ?thesis
  proof (cases "title w")
    case None
    with assms show ?thesis by (simp add: scrape_single_work_def)
  next
    case (Some t)
    show ?thesis
    proof (cases "work_id w \<in> seen_work_ids s")
      case True
      with Some assms show ?thesis by (simp add: scrape_single_work_def)
    next
      case False
      then have new: "work_id w \<notin> seen_work_ids ?s1" by simp
      obtain r s1 where f: "fetch_published wd page s = (r, s1)" by (cases "fetch_published wd page s")
      with fp have s1: "s1 = ?s1" by simp
      show ?thesis
      proof (cases r)
        case (Ok d)
        with Some False f s1 record_work_in_step [OF i1 new assms(2), of bins t d]
        show ?thesis by (simp add: scrape_single_work_def)
      next
        case (Stop x)
        with Some False f s1 i1 show ?thesis by (simp add: scrape_single_work_def)
      qed
    qed
  qed
qed

lemma scrape_page_emits_in_step:
  "emits s (snd (scrape_page cfg wd page ws wc s)) \<and>
   (in_step s \<and> list_all clean_work ws \<longrightarrow> in_step (snd (scrape_page cfg wd page ws wc s)))"
proof (induction ws arbitrary: wc s)
  case Nil
  show ?case by (simp add: emits_refl)
next
  case (Cons w ws)
  show ?case
  proof (cases "work_id w \<in> seen_work_ids s")
    case True
    with Cons.IH [of s wc] show ?thesis by simp
  next
    case False
    obtain r s1 where one: "scrape_single_work wd (kudos_bins cfg) page w s = (r, s1)"
      by (cases "scrape_single_work wd (kudos_bins cfg) page w s")
    from scrape_single_work_emits [of s wd "kudos_bins cfg" page w] one
    have e1: "emits s s1" by simp
    have i1: "in_step s1" if "in_step s" "clean_work w"
      using scrape_single_work_in_step [OF that, of wd "kudos_bins cfg" page] one by simp
    show ?thesis
    proof (cases r)
      case (Stop x)
      with False one e1 i1 show ?thesis by simp
    next
      case (Ok u)
      show ?thesis
      proof (cases "max_reached (max_work_count cfg) (Suc wc)")
        case True
        with False one Ok e1 i1 show ?thesis by simp
      next
        case nr: False
        let ?rest = "snd (scrape_page cfg wd page ws (Suc wc) s1)"
        from Cons.IH [of s1 "Suc wc"]
        have er: "emits s1 ?rest"
          and ir: "in_step s1 \<and> list_all clean_work ws \<longrightarrow> in_step ?rest" by simp_all
        from e1 er have "emits s ?rest" by (rule emits_trans)
        moreover have "in_step s \<and> list_all clean_work (w # ws) \<longrightarrow> in_step ?rest"
          using i1 ir by simp
        ultimately show ?thesis using False one Ok nr by simp
      qed
    qed
  qed
qed

lemma page_loop_emits_in_step:
  "emits s (snd (page_loop fuel cfg wd page wc s)) \<and>
   (in_step s \<and> clean_world wd \<longrightarrow> in_step (snd (page_loop fuel cfg wd page wc s)))"
proof (induction fuel arbitrary: page wc s)
  case 0
  show ?case by (simp add: emits_refl)
next
  case (Suc fuel)
  show ?case
  proof (cases "past_end (end_page cfg) page")
    case True
    then show ?thesis by (simp add: emits_refl)
  next
    case False
    obtain r1 s1 where f: "fetch_listing max_retries wd page s = (r1, s1)"
      by (cases "fetch_listing max_retries wd page s")
    from fetch_listing_fields [of max_retries wd page s] f
    have f1: "csv_file s1 = csv_file s" "seen_work_ids s1 = seen_work_ids s"
      "seen_work_ids_txt s1 = seen_work_ids_txt s" "trace s1 = trace s" by simp_all
    have e1: "emits s s1" by (rule emits_same) (simp_all add: f1)
    have i1: "in_step s1" if "in_step s" by (rule in_step_same [of s1 s]) (simp_all add: that f1)
    show ?thesis
    proof (cases r1)
      case (Stop x)
      with False f e1 i1 show ?thesis by simp
    next
      case (Ok soup)
      obtain r2 s2 where a: "apply_sampling wd (sampling_strategy cfg) (sampling_percentage cfg)
          (works soup) (sampling_n cfg) (kudos_bins cfg) s1 = (r2, s2)"
        by (cases "apply_sampling wd (sampling_strategy cfg) (sampling_percentage cfg)
          (works soup) (sampling_n cfg) (kudos_bins cfg) s1")
      from apply_sampling_fields [of wd "sampling_strategy cfg" "sampling_percentage cfg"
          "works soup" "sampling_n cfg" "kudos_bins cfg" s1] a
      have f2: "csv_file s2 = csv_file s1" "seen_work_ids s2 = seen_work_ids s1"
        "seen_work_ids_txt s2 = seen_work_ids_txt s1" "trace s2 = trace s1" by simp_all
      let ?s2 = "s2\<lparr>last_visited_page_txt := Some page\<rparr>"
      have e2: "emits s ?s2" by (rule emits_same) (simp_all add: f1 f2)
      have e2': "emits s s2" by (rule emits_same) (simp_all add: f1 f2)
      have i2: "in_step ?s2" if "in_step s" by (rule in_step_same [of ?s2 s]) (simp_all add: that f1 f2)
      have i2': "in_step s2" if "in_step s" by (rule in_step_same [of s2 s]) (simp_all add: that f1 f2)
      show ?thesis
      proof (cases r2)
        case (Inl e)
        with False f Ok a e2' i2' show ?thesis by simp
      next
        case (Inr sampled)
        have cs: "list_all clean_work sampled" if "clean_world wd"
        proof -
          from fetch_listing_from_net f Ok obtain k status where "net wd k = Http status soup"
            by blast
          with that have "list_all clean_work (works soup)"
            by (auto simp: clean_world_def split: response.splits dest!: spec [of _ k])
          moreover from apply_sampling_subset a Inr have "set sampled \<subseteq> set (works soup)" by blast
          ultimately show ?thesis by (auto simp: list_all_iff)
        qed
        obtain r3 s3 where p: "scrape_page cfg wd page sampled wc ?s2 = (r3, s3)"
          by (cases "scrape_page cfg wd page sampled wc ?s2")
        from scrape_page_emits_in_step [of ?s2 cfg wd page sampled wc] p
        have e3': "emits ?s2 s3" and i3': "in_step ?s2 \<and> list_all clean_work sampled \<longrightarrow> in_step s3"
          by simp_all
        from e2 e3' have e3: "emits s s3" by (rule emits_trans)
        have i3: "in_step s3" if "in_step s" "clean_world wd" using that i2 cs i3' by blast
        show ?thesis
        proof (cases r3)
          case (Stop x)
          with False f Ok a Inr p e3 i3 show ?thesis by simp
        next
          case ok3: (Ok res)
          obtain wc' sb where res: "res = (wc', sb)" by (cases res)
          show ?thesis
          proof (cases sb)
            case True
            with False f Ok a Inr p ok3 res e3 i3 show ?thesis by simp
          next
            case nb: False
            let ?rest = "snd (page_loop fuel cfg wd (page + 1) wc' s3)"
            from Suc.IH [of s3 "page + 1" wc']
            have er: "emits s3 ?rest"
              and ir: "in_step s3 \<and> clean_world wd \<longrightarrow> in_step ?rest" by simp_all
            from e3 er have "emits s ?rest" by (rule emits_trans)
            moreover have "in_step s \<and> clean_world wd \<longrightarrow> in_step ?rest"
              using i3 ir by blast
            ultimately show ?thesis using False f Ok a Inr p ok3 res nb by simp
          qed
        qed
      qed
    qed
  qed
qed

lemma prepare_effect:
  "seen_work_ids (prepare cfg (boot cfg' s0)) = loaded s0 \<and>
   seen_work_ids_txt (prepare cfg (boot cfg' s0)) = seen_work_ids_txt s0 \<and>
   sink (prepare cfg (boot cfg' s0)) = (case file_mode cfg of W \<Rightarrow> [] | A \<Rightarrow> sink s0) \<and>
   trace (prepare cfg (boot cfg' s0)) = trace s0"
  by (auto simp: prepare_def boot_def open_csv_def writerow_def loaded_def sink_def Let_def
           split: option.splits fmode.splits)

lemma prepared_in_step:
  assumes "resumable s0"
  shows "in_step (prepare cfg (boot cfg' s0))"
proof -
  let ?s = "prepare cfg (boot cfg' s0)"
  from prepare_effect [of cfg cfg' s0]
  have sn: "seen_work_ids ?s = loaded s0" and tx: "seen_work_ids_txt ?s = seen_work_ids_txt s0"
    and sk: "sink ?s = (case file_mode cfg of W \<Rightarrow> [] | A \<Rightarrow> sink s0)" by simp_all
  from assms obtain ids where d: "distinct (sink_ids s0)" and c: "list_all clean_id ids"
    and sub: "set (sink_ids s0) \<subseteq> set ids"
    and fl: "case seen_work_ids_txt s0 of None \<Rightarrow> ids = [] | Some content \<Rightarrow> content = seen_lines ids"
    by (auto simp: resumable_def)
  have ids: "sink_ids ?s = [] \<or> sink_ids ?s = sink_ids s0"
    using sk by (cases "file_mode cfg") (simp_all add: sink_ids_def List.map_filter_simps)
  have ld: "Some ` set ids \<subseteq> loaded s0"
  proof (cases "seen_work_ids_txt s0")
    case None
    with fl show ?thesis by simp
  next
    case (Some content)
    with fl load_seen_lines [OF c] show ?thesis by (simp add: loaded_def)
  qed
  have "distinct (sink_ids ?s)" using ids d by auto
  moreover have "set (sink_ids ?s) \<subseteq> set ids" using ids sub by auto
  moreover have "Some ` set (sink_ids s0) \<subseteq> loaded s0" using sub ld by blast
  then have "Some ` set (sink_ids ?s) \<subseteq> seen_work_ids ?s" using ids sn by auto
  ultimately show ?thesis
    unfolding in_step_def resumable_def using c fl tx by auto
qed

lemma cleanup_fields:
  "csv_file (snd (cleanup rs)) = csv_file (snd rs)"
  "seen_work_ids (snd (cleanup rs)) = seen_work_ids (snd rs)"
  "trace (snd (cleanup rs)) = trace (snd rs)"
  by (cases rs; cases "fst rs"; simp add: cleanup_def remove_state_files_def)+

lemma main_emits:
  "\<exists>n. sink (snd (main fuel cfg wd s0)) = (case file_mode cfg of W \<Rightarrow> [] | A \<Rightarrow> sink s0) @ n \<and>
       seen_work_ids (snd (main fuel cfg wd s0)) = loaded s0 \<union> set n \<and>
       trace (snd (main fuel cfg wd s0)) = trace s0 @ pairs_of n \<and>
       distinct n \<and> set n \<inter> loaded s0 = {}"
proof -
  let ?first = "resume_page (start_page (effective cfg)) (last_visited_page_txt s0)"
  let ?s = "prepare (effective cfg) (boot (effective cfg) s0)"
  let ?c = "page_loop fuel (effective cfg) wd ?first 0 ?s"
  have m: "main fuel cfg wd s0 = cleanup ?c" by (simp add: main_def scrape_works_def)
  have fm: "file_mode (effective cfg) = file_mode cfg" by (simp add: effective_def)
  from page_loop_emits_in_step [of ?s fuel "effective cfg" wd ?first 0]
  obtain n where n: "sink (snd ?c) = sink ?s @ n" "seen_work_ids (snd ?c) = seen_work_ids ?s \<union> set n"
    "trace (snd ?c) = trace ?s @ pairs_of n" "distinct n" "set n \<inter> seen_work_ids ?s = {}"
    unfolding emits_def by blast
  have "sink (snd (cleanup ?c)) = sink (snd ?c)" by (rule sink_same) (rule cleanup_fields)
  with n prepare_effect [of "effective cfg" "effective cfg" s0] fm show ?thesis
    by (intro exI [of _ n]) (simp add: m cleanup_fields)
qed

lemma prepare_overwrites:
  "file_mode cfg = W \<Longrightarrow> prepare cfg (boot cfg' (s0\<lparr>csv_file := None\<rparr>)) = prepare cfg (boot cfg' s0)"
  by (simp add: prepare_def boot_def open_csv_def writerow_def Let_def split: option.splits)

lemma main_resumable:
  assumes "resumable s0 \<or> file_mode cfg = W \<and> resumable (s0\<lparr>csv_file := None\<rparr>)"
    and "clean_world wd"
  shows "distinct (sink_ids (snd (main fuel cfg wd s0))) \<and>
         (case fst (main fuel cfg wd s0) of
            Returned p work_count should_break \<Rightarrow> True
          | Halted p ph reason \<Rightarrow> resumable (snd (main fuel cfg wd s0))
          | Unfinished p work_count \<Rightarrow> resumable (snd (main fuel cfg wd s0)))"
proof -
  let ?first = "resume_page (start_page (effective cfg)) (last_visited_page_txt s0)"
  let ?s = "prepare (effective cfg) (boot (effective cfg) s0)"
  let ?c = "page_loop fuel (effective cfg) wd ?first 0 ?s"
  have m: "main fuel cfg wd s0 = cleanup ?c" by (simp add: main_def scrape_works_def)
  have fm: "file_mode (effective cfg) = file_mode cfg" by (simp add: effective_def)
  from assms(1) have "in_step ?s"
  proof
    assume "resumable s0"
    then show ?thesis by (rule prepared_in_step)
  next
    assume w: "file_mode cfg = W \<and> resumable (s0\<lparr>csv_file := None\<rparr>)"
    then have "in_step (prepare (effective cfg) (boot (effective cfg) (s0\<lparr>csv_file := None\<rparr>)))"
      by (intro prepared_in_step) simp
    moreover from w fm have "file_mode (effective cfg) = W" by simp
    ultimately show ?thesis by (simp add: prepare_overwrites)
  qed
  with page_loop_emits_in_step [of ?s fuel "effective cfg" wd ?first 0] assms(2)
  have i: "in_step (snd ?c)" by blast
  then have r: "resumable (snd ?c)" by (simp add: in_step_def)
  then have d: "distinct (sink_ids (snd ?c))" by (simp add: resumable_def)
  have "sink_ids (snd (cleanup ?c)) = sink_ids (snd ?c)" by (rule sink_ids_same) (rule cleanup_fields)
  with d have "distinct (sink_ids (snd (main fuel cfg wd s0)))" by (simp add: m)
  moreover have "case fst (main fuel cfg wd s0) of
            Returned p work_count should_break \<Rightarrow> True
          | Halted p ph reason \<Rightarrow> resumable (snd (main fuel cfg wd s0))
          | Unfinished p work_count \<Rightarrow> resumable (snd (main fuel cfg wd s0))"
    using r by (cases ?c; cases "fst ?c"; simp add: m cleanup_def)
  ultimately show ?thesis by simp
qed

lemma returned_clears:
  assumes "fst (main fuel cfg wd s0) = Returned p work_count should_break"
  shows "resumable ((snd (main fuel cfg wd s0))\<lparr>csv_file := None\<rparr>)"
proof -
  obtain r s1 where c: "scrape_works fuel (effective cfg) (last_visited_page_txt s0) wd
      (boot (effective cfg) s0) = (r, s1)"
    by (cases "scrape_works fuel (effective cfg) (last_visited_page_txt s0) wd (boot (effective cfg) s0)")
  with assms have "snd (main fuel cfg wd s0) = remove_state_files s1"
    by (cases r) (simp_all add: main_def cleanup_def)
  then show ?thesis
    by (simp add: resumable_def remove_state_files_def sink_ids_def sink_def List.map_filter_simps)
qed

lemma session_trace: "\<exists>n. trace (session runs s) = trace s @ pairs_of n"
proof (induction runs arbitrary: s)
  case Nil
  have "trace s = trace s @ pairs_of []" by (simp add: pairs_of_def)
  then show ?case by auto
next
  case (Cons r runs)
  obtain fuel cfg wd where r: "r = (fuel, cfg, wd)" by (cases r)
  let ?s' = "snd (main fuel cfg wd s)"
  from main_emits [of fuel cfg wd s] obtain n1 where "trace ?s' = trace s @ pairs_of n1" by auto
  moreover from Cons.IH [of ?s'] obtain n2 where
    "trace (session runs ?s') = trace ?s' @ pairs_of n2" by auto
  ultimately have "trace (session (r # runs) s) = trace s @ pairs_of (n1 @ n2)"
    by (simp add: r pairs_of_append)
  then show ?case by blast
qed

lemma session_exclusive:
  "resumable s \<or> file_mode (fst (snd r)) = W \<and> resumable (s\<lparr>csv_file := None\<rparr>) \<Longrightarrow>
   list_all (\<lambda>(fuel, cfg, wd). clean_world wd) (r # runs) \<Longrightarrow>
   appends_after_halt (r # runs) s \<Longrightarrow>
   distinct (sink_ids (session (r # runs) s))"
proof (induction runs arbitrary: r s)
  case Nil
  obtain fuel cfg wd where r: "r = (fuel, cfg, wd)" by (cases r)
  with Nil.prems have "resumable s \<or> file_mode cfg = W \<and> resumable (s\<lparr>csv_file := None\<rparr>)"
    and "clean_world wd" by simp_all
  from main_resumable [OF this, of fuel] r show ?case by simp
next
  case (Cons r' runs)
  obtain fuel cfg wd where r: "r = (fuel, cfg, wd)" by (cases r)
  obtain fuel' cfg' wd' where r': "r' = (fuel', cfg', wd')" by (cases r')
  let ?s' = "snd (main fuel cfg wd s)"
  from Cons.prems(1,2) r have st: "resumable s \<or> file_mode cfg = W \<and> resumable (s\<lparr>csv_file := None\<rparr>)"
    and cw: "clean_world wd"
    and rest: "list_all (\<lambda>(fuel, cfg, wd). clean_world wd) (r' # runs)" by simp_all
  from Cons.prems(3) r r' have nx: "case fst (main fuel cfg wd s) of
         Returned p work_count should_break \<Rightarrow> file_mode cfg' = W
       | Halted p ph reason \<Rightarrow> True
       | Unfinished p work_count \<Rightarrow> True"
    and ah: "appends_after_halt (r' # runs) ?s'" by simp_all
  from main_resumable [OF st cw, of fuel]
  have rs: "case fst (main fuel cfg wd s) of
            Returned p work_count should_break \<Rightarrow> True
          | Halted p ph reason \<Rightarrow> resumable ?s'
          | Unfinished p work_count \<Rightarrow> resumable ?s'" by simp
  have "resumable ?s' \<or> file_mode (fst (snd r')) = W \<and> resumable (?s'\<lparr>csv_file := None\<rparr>)"
  proof (cases "fst (main fuel cfg wd s)")
    case (Returned p work_count should_break)
    with nx returned_clears [OF Returned] r' show ?thesis by simp
  next
    case (Halted p ph reason)
    with rs show ?thesis by simp
  next
    case (Unfinished p work_count)
    with rs show ?thesis by simp
  qed
  from Cons.IH [OF this rest ah] r show ?case by simp
qed

lemma resumable_fresh: "resumable (fresh g)"
  by (simp add: resumable_def fresh_def sink_ids_def sink_def List.map_filter_simps)

lemma clean_serving:
  assumes "list_all (\<lambda>r. case r of NetworkError \<Rightarrow> True | Http status body \<Rightarrow> list_all clean_work (works body)) (d # rs)"
  shows "clean_world (serving rs d)"
  using assms by (auto simp: clean_world_def serving_def replay_def list_all_iff split: response.splits)

text \<open>
  Claim C4, as the code has it. In every run, resumed or not, the Sink grows by the records the
  run writes, the seen-set grows by exactly their identifiers, each identifier is added right
  after its record is written, and the identifiers the run writes differ from each other and from
  those it read from \<^verbatim>\<open>seen_work_ids.txt\<close>. Over any number of runs one after the other, no
  identifier appears in two records of the Sink, as long as no run in append mode follows a run
  that returned (and so removed \<^verbatim>\<open>seen_work_ids.txt\<close>), for identifiers that are not empty and
  hold no whitespace, from a disk whose Sink and seen-set file agree.
\<close>

theorem seen_set_exclusive:
  assumes "resumable s" and "list_all (\<lambda>(fuel, cfg, wd). clean_world wd) runs"
    and "appends_after_halt runs s"
  shows "distinct (sink_ids (session runs s)) \<and>
         (\<exists>n. trace (session runs s) = trace s @ pairs_of n) \<and>
         (\<exists>n. sink (snd (main fuel cfg wd s0)) = (case file_mode cfg of W \<Rightarrow> [] | A \<Rightarrow> sink s0) @ n \<and>
              seen_work_ids (snd (main fuel cfg wd s0)) = loaded s0 \<union> set n \<and>
              trace (snd (main fuel cfg wd s0)) = trace s0 @ pairs_of n \<and>
              distinct n \<and> set n \<inter> loaded s0 = {})"
proof -
  have "distinct (sink_ids (session runs s))"
  proof (cases runs)
    case Nil
    with assms(1) show ?thesis by (simp add: resumable_def)
  next
    case (Cons r rest)
    with assms session_exclusive [of s r rest] show ?thesis by simp
  qed
  with session_trace [of runs s] main_emits [of fuel cfg wd s0] show ?thesis by simp
qed

text \<open>
  Two runs in append mode, the first halted by the rate-limit marker: the second finds work 1 in
  the seen-set and emits only work 2.
\<close>

theorem seen_set_exclusive_witness:
  "resumable (fresh []) \<and>
   appends_after_halt
     [(5, settings\<lparr>file_mode := A\<rparr>, revisit [item ''1'' 5] [item ''1'' 5, item ''2'' 7]),
      (5, settings\<lparr>file_mode := A\<rparr>, revisit [item ''1'' 5] [item ''1'' 5, item ''2'' 7])]
     (fresh []) \<and>
   sink_ids (session [(5, settings\<lparr>file_mode := A\<rparr>, revisit [item ''1'' 5] [item ''1'' 5, item ''2'' 7]),
                      (5, settings\<lparr>file_mode := A\<rparr>, revisit [item ''1'' 5] [item ''1'' 5, item ''2'' 7])]
               (fresh []))
     = [''1'', ''2''] \<and>
   distinct (sink_ids (session [(5, settings\<lparr>file_mode := A\<rparr>, revisit [item ''1'' 5] [item ''1'' 5, item ''2'' 7]),
                      (5, settings\<lparr>file_mode := A\<rparr>, revisit [item ''1'' 5] [item ''1'' 5, item ''2'' 7])]
               (fresh [])))"
proof -
  let ?wd = "revisit [item ''1'' 5] [item ''1'' 5, item ''2'' 7]"
  let ?runs = "[(5, settings\<lparr>file_mode := A\<rparr>, ?wd), (5, settings\<lparr>file_mode := A\<rparr>, ?wd)]"
  have c: "clean_world ?wd"
    unfolding revisit_def
    by (rule clean_serving)
       (simp add: ok_page_def limited_def clean_work_def clean_id_def item_def is_space_def)
  then have cs: "list_all (\<lambda>(fuel, cfg, wd). clean_world wd) ?runs" by simp
  have ah: "appends_after_halt ?runs (fresh [])" by code_simp
  have v: "sink_ids (session ?runs (fresh [])) = [''1'', ''2'']" by code_simp
  from seen_set_exclusive [OF resumable_fresh cs ah] resumable_fresh [of "[]"] ah v
  show ?thesis by simp
qed

text \<open>
  With \<open>max_work_count = 1\<close> the first run emits work 1 and returns, and \<^verbatim>\<open>main\<close> removes
  \<^verbatim>\<open>seen_work_ids.txt\<close>; the next run appends to the same Sink from an empty seen-set and
  writes work 1 again. And an identifier with a leading blank is written to the seen-set file as
  it is and read back without the blank, so that a run resumed after a halt emits the work again.
\<close>

theorem seen_set_exclusive_counterexample:
  "fst (main 5 (settings\<lparr>max_work_count := Some 1, file_mode := A\<rparr>) (twice [item ''1'' 5]) (fresh []))
     = Returned 1 1 True \<and>
   seen_work_ids_txt
     (snd (main 5 (settings\<lparr>max_work_count := Some 1, file_mode := A\<rparr>) (twice [item ''1'' 5]) (fresh [])))
     = None \<and>
   sink_ids (session [(5, settings\<lparr>max_work_count := Some 1, file_mode := A\<rparr>, twice [item ''1'' 5]),
                      (5, settings\<lparr>max_work_count := Some 1, file_mode := A\<rparr>, twice [item ''1'' 5])]
               (fresh []))
     = [''1'', ''1''] \<and>
   \<not> distinct
       (sink_ids (session [(5, settings\<lparr>max_work_count := Some 1, file_mode := A\<rparr>, twice [item ''1'' 5]),
                           (5, settings\<lparr>max_work_count := Some 1, file_mode := A\<rparr>, twice [item ''1'' 5])]
                    (fresh []))) \<and>
   sink_ids (session [(5, settings\<lparr>file_mode := A\<rparr>, revisit [item '' 7'' 5] [item '' 7'' 5]),
                      (5, settings\<lparr>file_mode := A\<rparr>, revisit [item '' 7'' 5] [item '' 7'' 5])]
               (fresh []))
     = ['' 7'', '' 7''] \<and>
   load_seen ('' 7'' @ [newline]) = {Some ''7''}"
  by code_simp

end
